theory Spec2Isabelle
  imports Complex_Main "HOL-Library.Word"
begin

unbundle bit_operations_syntax

section \<open>Numbers, typed arrays and platform errors\<close>

text \<open>
  The audio utilities of \<^verbatim>\<open>src/utils/audioUtils.ts\<close> and the playback scheduler of
  \<^verbatim>\<open>src/hooks/useGeminiLive.ts\<close> are embedded as HOL functions. Finite numbers are real
  numbers. The resampler is embedded with the rounding of the platform: each of its
  operations on doubles is the exact operation followed by the rounding to the nearest
  double, and each store into a single precision array rounds once more. The level meter,
  the codec and the clock of the scheduler are embedded with exact arithmetic. The
  non-finite results that the code can produce from finite operands (a division by zero,
  an overflow) are values of the type \<open>number\<close>. Exceptions raised by the platform are
  values of \<open>js_error\<close>, returned on the left of a sum.
\<close>

datatype js_error = RangeError | NotSupportedError | InvalidCharacterError

datatype number = Num real | PosInfinity | NegInfinity | NaN

text \<open>\<^verbatim>\<open>x / y\<close> on finite operands; a zero divisor is the positive zero.\<close>

definition js_div :: "real \<Rightarrow> real \<Rightarrow> number" where
  "js_div x y =
     (if y \<noteq> 0 then Num (x / y)
      else if x = 0 then NaN
      else if 0 < x then PosInfinity else NegInfinity)"

text \<open>\<^verbatim>\<open>Math.sqrt\<close> and \<^verbatim>\<open>Math.ceil\<close>.\<close>

fun js_sqrt :: "number \<Rightarrow> number" where
  "js_sqrt (Num x) = (if x < 0 then NaN else Num (sqrt x))"
| "js_sqrt PosInfinity = PosInfinity"
| "js_sqrt NegInfinity = NaN"
| "js_sqrt NaN = NaN"

fun js_ceil :: "number \<Rightarrow> number" where
  "js_ceil (Num x) = Num (of_int \<lceil>x\<rceil>)"
| "js_ceil n = n"

text \<open>
  Reading a typed array at an integer index: \<^verbatim>\<open>undefined\<close> (here \<open>None\<close>) outside
  the array. Writing outside the array is ignored.
\<close>

definition ta_get :: "'a list \<Rightarrow> int \<Rightarrow> 'a option" where
  "ta_get xs i = (if 0 \<le> i \<and> i < int (length xs) then Some (xs ! nat i) else None)"

definition ta_set :: "'a list \<Rightarrow> nat \<Rightarrow> 'a \<Rightarrow> 'a list" where
  "ta_set xs i v = (if i < length xs then xs[i := v] else xs)"

text \<open>
  \<^verbatim>\<open>a || b\<close> for a sample read \<open>a\<close>: the left operand is falsy when it is
  \<^verbatim>\<open>undefined\<close> or zero.
\<close>

definition or_else :: "real option \<Rightarrow> real \<Rightarrow> real" where
  "or_else a b = (case a of None \<Rightarrow> b | Some x \<Rightarrow> if x = 0 then b else x)"

section \<open>Double and single precision\<close>

text \<open>
  Rounding to the nearest integer, ties to the even one.
\<close>

definition round_even :: "real \<Rightarrow> int" where
  "round_even x =
     (let f = \<lfloor>x\<rfloor>; d = x - of_int f
      in if d < 1 / 2 then f else if 1 / 2 < d then f + 1 else if even f then f else f + 1)"

text \<open>
  The binary exponent of a positive real \<open>x\<close>: the integer \<open>e\<close> with
  \<open>2\<^sup>e \<le> x < 2\<^sup>e\<^sup>+\<^sup>1\<close>, counted upwards from 1 and downwards from 1.
\<close>

function expo_up :: "real \<Rightarrow> int" where
  "expo_up x = (if 2 \<le> x then expo_up (x / 2) + 1 else 0)"
  by pat_completeness auto
termination
proof (relation "measure (\<lambda>x. nat \<lfloor>x\<rfloor>)")
  show "wf (measure (\<lambda>x. nat \<lfloor>x\<rfloor>))"
    by simp
next
  fix x :: real
  assume x: "2 \<le> x"
  have "x / 2 \<le> x - 1"
    using x by simp
  then have "\<lfloor>x / 2\<rfloor> \<le> \<lfloor>x - 1\<rfloor>"
    by (rule floor_mono)
  moreover have "2 \<le> \<lfloor>x\<rfloor>"
    using x by (simp add: le_floor_iff)
  ultimately have "\<lfloor>x / 2\<rfloor> < \<lfloor>x\<rfloor>" "0 < \<lfloor>x\<rfloor>"
    by simp_all
  then show "(x / 2, x) \<in> measure (\<lambda>x. nat \<lfloor>x\<rfloor>)"
    by simp
qed

function expo_down :: "real \<Rightarrow> int" where
  "expo_down x = (if 0 < x \<and> x < 1 then expo_down (2 * x) - 1 else 0)"
  by pat_completeness auto
termination
proof (relation "measure (\<lambda>x. nat \<lceil>1 / x\<rceil>)")
  show "wf (measure (\<lambda>x. nat \<lceil>1 / x\<rceil>))"
    by simp
next
  fix x :: real
  assume x: "0 < x \<and> x < 1"
  then have y: "1 < 1 / x"
    by simp
  then have c: "2 \<le> \<lceil>1 / x\<rceil>"
    by linarith
  have "1 / (2 * x) = (1 / x) / 2"
    by simp
  also have "\<dots> \<le> of_int \<lceil>1 / x\<rceil> / 2"
    by (simp add: divide_right_mono)
  also have "\<dots> \<le> of_int (\<lceil>1 / x\<rceil> - 1)"
    using c by simp
  finally have "\<lceil>1 / (2 * x)\<rceil> \<le> \<lceil>1 / x\<rceil> - 1"
    by (simp only: ceiling_le_iff)
  then show "(2 * x, x) \<in> measure (\<lambda>x. nat \<lceil>1 / x\<rceil>)"
    using c x by simp
qed

declare expo_up.simps [simp del] expo_down.simps [simp del]

definition expo :: "real \<Rightarrow> int" where
  "expo x = (if 1 \<le> x then expo_up x else expo_down x)"

text \<open>
  Rounding to the nearest number of a binary format with \<open>p\<close> significant bits and least
  normal exponent \<open>emin\<close>, ties to even: \<open>quantum\<close> is the exponent of the unit in the
  last place of \<open>x\<close>, which for the subnormal numbers is the one of the least normal number.
  The exponent is not bounded above here; the overflow to an infinity is added where an
  operation can overflow.
\<close>

definition quantum :: "nat \<Rightarrow> int \<Rightarrow> real \<Rightarrow> int" where
  "quantum p emin x = max (expo \<bar>x\<bar>) emin - (int p - 1)"

definition round_to :: "nat \<Rightarrow> int \<Rightarrow> real \<Rightarrow> real" where
  "round_to p emin x =
     (let q = quantum p emin x
      in of_int (round_even (x / 2 powi q)) * 2 powi q)"

text \<open>
  The result of an arithmetic operation on doubles is the exact result rounded by \<open>rd64\<close>;
  a store into a \<^verbatim>\<open>Float32Array\<close> rounds by \<open>fround\<close>. \<open>f64\<close> is \<open>rd64\<close> with the overflow
  to an infinity, \<open>f64_div\<close> the division of doubles; as in \<open>js_div\<close>, a zero is the
  positive zero.
\<close>

definition rd64 :: "real \<Rightarrow> real" where
  "rd64 = round_to 53 (- 1022)"

definition fround :: "real \<Rightarrow> real" where
  "fround = round_to 24 (- 126)"

definition max_double :: real where
  "max_double = (2 ^ 53 - 1) * 2 ^ 971"

definition max_float32 :: real where
  "max_float32 = (2 ^ 24 - 1) * 2 ^ 104"

definition f64 :: "real \<Rightarrow> number" where
  "f64 x =
     (if max_double < rd64 x then PosInfinity
      else if rd64 x < - max_double then NegInfinity
      else Num (rd64 x))"

definition f64_div :: "real \<Rightarrow> real \<Rightarrow> number" where
  "f64_div x y =
     (if y \<noteq> 0 then f64 (x / y)
      else if x = 0 then NaN
      else if 0 < x then PosInfinity else NegInfinity)"

text \<open>The finite values that an element of a \<^verbatim>\<open>Float32Array\<close> can have.\<close>

definition is_float32 :: "real \<Rightarrow> bool" where
  "is_float32 x \<longleftrightarrow> fround x = x \<and> \<bar>x\<bar> \<le> max_float32"

section \<open>Level meter: \<^verbatim>\<open>calculateRMS\<close>\<close>

function rms_loop :: "real list \<Rightarrow> nat \<Rightarrow> real \<Rightarrow> real" where
  "rms_loop data i acc =
     (if i < length data then rms_loop data (i + 1) (acc + data ! i * data ! i) else acc)"
  by pat_completeness auto
termination
  by (relation "measure (\<lambda>(data, i, acc). length data - i)") auto

declare rms_loop.simps [simp del]

definition calculateRMS :: "real list \<Rightarrow> number" where
  "calculateRMS data = js_sqrt (js_div (rms_loop data 0 0) (real (length data)))"

section \<open>Resampler: \<^verbatim>\<open>downsampleTo16k\<close>\<close>

text \<open>
  The right-hand side of the assignment in the interpolation loop, for output index \<open>i\<close>.
  Every operation is the one of double precision. For the samples of a \<^verbatim>\<open>Float32Array\<close>
  and an input of at most \<open>2\<^sup>5\<^sup>3 - 1\<close> samples none of these operations overflows (lemmas
  \<open>index_finite\<close> and \<open>blend_finite\<close>), so their results are written as finite numbers.
\<close>

definition interpolate :: "real list \<Rightarrow> real \<Rightarrow> nat \<Rightarrow> real" where
  "interpolate input ratio i =
     (let index = rd64 (real i * ratio);
          floor = \<lfloor>index\<rfloor>;
          ceil = \<lceil>index\<rceil>;
          weight = rd64 (index - of_int floor);
          s1 = or_else (ta_get input floor) 0;
          s2 = or_else (ta_get input ceil) (or_else (ta_get input floor) 0)
      in rd64 (rd64 (s1 * rd64 (1 - weight)) + rd64 (s2 * weight)))"

text \<open>The loop; the store into \<^verbatim>\<open>result\<close> rounds to single precision.\<close>

function downsample_loop :: "real list \<Rightarrow> real \<Rightarrow> nat \<Rightarrow> nat \<Rightarrow> real list \<Rightarrow> real list" where
  "downsample_loop input ratio newLength i result =
     (if i < newLength
      then downsample_loop input ratio newLength (i + 1)
             (ta_set result i (fround (interpolate input ratio i)))
      else result)"
  by pat_completeness auto
termination
  by (relation "measure (\<lambda>(input, ratio, newLength, i, result). newLength - i)") auto

declare downsample_loop.simps [simp del]

text \<open>
  The quotient \<^verbatim>\<open>inputSampleRate / 16000\<close> underflows to a zero for a rate of tiny
  magnitude: that zero has the sign of the rate, and the division of the length by it gives
  the infinity of that sign. \<^verbatim>\<open>newLength <= 0\<close> is false for NaN, and
  \<^verbatim>\<open>new Float32Array(newLength)\<close> raises a RangeError for a length above \<open>2\<^sup>5\<^sup>3 - 1\<close>
  and gives the empty array for NaN. (A platform may refuse to allocate an array of a
  length below that bound; the model allocates it.)
\<close>

definition downsampleTo16k :: "real list \<Rightarrow> real \<Rightarrow> js_error + real list" where
  "downsampleTo16k input inputSampleRate =
     (if inputSampleRate = 16000 then Inr input
      else if length input = 0 then Inr []
      else
        case f64 (inputSampleRate / 16000) of
          Num ratio \<Rightarrow>
            (case js_ceil (if ratio = 0 \<and> inputSampleRate < 0 then NegInfinity
                           else f64_div (real (length input)) ratio) of
               Num newLength \<Rightarrow>
                 if newLength \<le> 0 then Inr []
                 else if 2 ^ 53 - 1 < newLength then Inl RangeError
                 else Inr (downsample_loop input ratio (nat \<lfloor>newLength\<rfloor>) 0
                             (replicate (nat \<lfloor>newLength\<rfloor>) 0))
             | PosInfinity \<Rightarrow> Inl RangeError
             | NegInfinity \<Rightarrow> Inr []
             | NaN \<Rightarrow> Inr [])
        | PosInfinity \<Rightarrow> Inr []
        | NegInfinity \<Rightarrow> Inr []
        | NaN \<Rightarrow> Inr [])"

section \<open>PCM codec: \<^verbatim>\<open>createPcmBlob\<close>, \<^verbatim>\<open>arrayBufferToBase64\<close>, \<^verbatim>\<open>decodeBase64\<close>\<close>

type_synonym int16 = "16 word"
type_synonym uint8 = "8 word"

text \<open>
  Storing a finite number into an \<^verbatim>\<open>Int16Array\<close>: the fraction is dropped (rounding
  towards zero) and the integer is reduced modulo \<open>2 ^ 16\<close>.
\<close>

definition trunc :: "real \<Rightarrow> int" where
  "trunc x = (if x < 0 then \<lceil>x\<rceil> else \<lfloor>x\<rfloor>)"

definition ToInt16 :: "real \<Rightarrow> int16" where
  "ToInt16 x = word_of_int (trunc x)"

text \<open>The value assigned to \<^verbatim>\<open>int16[i]\<close> in the loop of \<^verbatim>\<open>createPcmBlob\<close>.\<close>

definition pcm_scale :: "real \<Rightarrow> real" where
  "pcm_scale x = (let s = max (- 1) (min 1 x) in if s < 0 then s * 32768 else s * 32767)"

function createPcmBlob_loop :: "real list \<Rightarrow> nat \<Rightarrow> nat \<Rightarrow> int16 list \<Rightarrow> int16 list" where
  "createPcmBlob_loop data l i int16 =
     (if i < l
      then createPcmBlob_loop data l (i + 1) (ta_set int16 i (ToInt16 (pcm_scale (data ! i))))
      else int16)"
  by pat_completeness auto
termination
  by (relation "measure (\<lambda>(data, l, i, int16). l - i)") auto

declare createPcmBlob_loop.simps [simp del]

text \<open>
  The bytes of the buffer behind an \<^verbatim>\<open>Int16Array\<close> and the \<^verbatim>\<open>Int16Array\<close> view of a
  byte buffer, in the little-endian byte order of the platform. The view of a buffer of
  odd byte length raises a RangeError. A \<^verbatim>\<open>Uint8Array\<close> is the list of the bytes of its
  buffer: the arrays that \<^verbatim>\<open>decodeBase64\<close> returns cover their whole buffer.
\<close>

definition int16_bytes :: "int16 \<Rightarrow> uint8 list" where
  "int16_bytes w = [ucast w, ucast (drop_bit 8 w)]"

definition buffer_of_Int16Array :: "int16 list \<Rightarrow> uint8 list" where
  "buffer_of_Int16Array ws = concat (map int16_bytes ws)"

fun int16_view :: "uint8 list \<Rightarrow> int16 list" where
  "int16_view (lo # hi # rest) = (push_bit 8 (ucast hi) OR ucast lo) # int16_view rest"
| "int16_view rest = []"

definition new_Int16Array :: "uint8 list \<Rightarrow> js_error + int16 list" where
  "new_Int16Array buffer =
     (if length buffer mod 2 \<noteq> 0 then Inl RangeError else Inr (int16_view buffer))"

text \<open>
  \<^verbatim>\<open>btoa\<close> and \<^verbatim>\<open>atob\<close> of the platform. A binary string is a \<open>string\<close>: one
  character of code 0 to 255 for each byte, so that \<^verbatim>\<open>btoa\<close> never meets a character
  it would reject. \<^verbatim>\<open>atob\<close> follows the forgiving decoding
  of the HTML standard: ASCII whitespace is removed, one or two padding characters are
  removed from a string whose length is a multiple of four, a remaining length of one
  modulo four or a character outside the alphabet raises InvalidCharacterError, and the
  bits left over by a final group of two or three characters are discarded.
\<close>

definition b64_alphabet :: string where
  "b64_alphabet = ''ABCDEFGHIJKLMNOPQRSTUVWXYZabcdefghijklmnopqrstuvwxyz0123456789+/''"

fun index_of :: "'a list \<Rightarrow> 'a \<Rightarrow> nat option" where
  "index_of [] c = None"
| "index_of (x # xs) c = (if x = c then Some 0 else map_option Suc (index_of xs c))"

fun btoa_sextets :: "nat list \<Rightarrow> nat list" where
  "btoa_sextets (a # b # c # rest) =
     (let n = a * 65536 + b * 256 + c
      in [n div 262144, n div 4096 mod 64, n div 64 mod 64, n mod 64]) @ btoa_sextets rest"
| "btoa_sextets [a, b] = (let n = (a * 256 + b) * 4 in [n div 4096, n div 64 mod 64, n mod 64])"
| "btoa_sextets [a] = (let n = a * 16 in [n div 64, n mod 64])"
| "btoa_sextets [] = []"

fun btoa_padding :: "nat list \<Rightarrow> string" where
  "btoa_padding (a # b # c # rest) = btoa_padding rest"
| "btoa_padding [a, b] = ''=''"
| "btoa_padding [a] = ''==''"
| "btoa_padding [] = []"

definition btoa :: "string \<Rightarrow> string" where
  "btoa binary =
     (let bytes = map of_char binary
      in map (\<lambda>s. b64_alphabet ! s) (btoa_sextets bytes) @ btoa_padding bytes)"

definition ascii_whitespace :: "char \<Rightarrow> bool" where
  "ascii_whitespace c = (of_char c \<in> {9, 10, 12, 13, 32 :: nat})"

definition strip_padding :: "string \<Rightarrow> string" where
  "strip_padding s =
     (if length s mod 4 = 0
      then (case rev s of
              c1 # c2 # r \<Rightarrow>
                if c1 = CHR ''='' \<and> c2 = CHR ''='' then rev r
                else if c1 = CHR ''='' then rev (c2 # r) else s
            | _ \<Rightarrow> s)
      else s)"

fun atob_groups :: "nat list \<Rightarrow> nat list" where
  "atob_groups (a # b # c # d # rest) =
     (let n = ((a * 64 + b) * 64 + c) * 64 + d
      in [n div 65536, n div 256 mod 256, n mod 256]) @ atob_groups rest"
| "atob_groups [a, b, c] = (let n = ((a * 64 + b) * 64 + c) div 4 in [n div 256, n mod 256])"
| "atob_groups [a, b] = [(a * 64 + b) div 16]"
| "atob_groups rest = []"

definition atob :: "string \<Rightarrow> js_error + string" where
  "atob base64 =
     (let s = strip_padding (filter (\<lambda>c. \<not> ascii_whitespace c) base64)
      in if length s mod 4 = 1 then Inl InvalidCharacterError
         else case those (map (index_of b64_alphabet) s) of
                None \<Rightarrow> Inl InvalidCharacterError
              | Some sextets \<Rightarrow> Inr (map char_of (atob_groups sextets)))"

function arrayBufferToBase64_loop :: "uint8 list \<Rightarrow> nat \<Rightarrow> nat \<Rightarrow> string \<Rightarrow> string" where
  "arrayBufferToBase64_loop bytes len i binary =
     (if i < len
      then arrayBufferToBase64_loop bytes len (i + 1) (binary @ [char_of (unat (bytes ! i))])
      else binary)"
  by pat_completeness auto
termination
  by (relation "measure (\<lambda>(bytes, len, i, binary). len - i)") auto

declare arrayBufferToBase64_loop.simps [simp del]

definition arrayBufferToBase64 :: "uint8 list \<Rightarrow> string" where
  "arrayBufferToBase64 buffer = btoa (arrayBufferToBase64_loop buffer (length buffer) 0 [])"

record blob =
  blob_data :: string
  mimeType :: string

definition createPcmBlob :: "real list \<Rightarrow> blob" where
  "createPcmBlob data =
     (let l = length data;
          int16 = createPcmBlob_loop data l 0 (replicate l 0)
      in \<lparr>blob_data = arrayBufferToBase64 (buffer_of_Int16Array int16),
          mimeType = ''audio/pcm;rate=16000''\<rparr>)"

function decodeBase64_loop :: "string \<Rightarrow> nat \<Rightarrow> nat \<Rightarrow> uint8 list \<Rightarrow> uint8 list" where
  "decodeBase64_loop binaryString len i bytes =
     (if i < len
      then decodeBase64_loop binaryString len (i + 1)
             (ta_set bytes i (of_nat (of_char (binaryString ! i))))
      else bytes)"
  by pat_completeness auto
termination
  by (relation "measure (\<lambda>(binaryString, len, i, bytes). len - i)") auto

declare decodeBase64_loop.simps [simp del]

definition decodeBase64 :: "string \<Rightarrow> js_error + uint8 list" where
  "decodeBase64 base64 =
     (case atob base64 of
        Inl e \<Rightarrow> Inl e
      | Inr binaryString \<Rightarrow>
          let len = length binaryString
          in Inr (decodeBase64_loop binaryString len 0 (replicate len 0)))"

section \<open>PCM codec: \<^verbatim>\<open>decodeAudioData\<close>\<close>

text \<open>
  An \<^verbatim>\<open>AudioBuffer\<close>: \<open>frames\<close> is its \<^verbatim>\<open>length\<close>. A sample computed by the decoder
  is a \<open>number\<close>, since a read outside the \<^verbatim>\<open>Int16Array\<close> gives \<^verbatim>\<open>undefined\<close> and
  \<^verbatim>\<open>undefined / 32768.0\<close> is NaN.
\<close>

record audio_buffer =
  numberOfChannels :: nat
  frames :: nat
  sampleRate :: real
  channelData :: "number list list"

definition duration :: "audio_buffer \<Rightarrow> real" where
  "duration b = real (frames b) / sampleRate b"

text \<open>
  \<^verbatim>\<open>createBuffer\<close> of the audio context: the length argument is converted to an
  unsigned integer (the fraction is dropped), and a zero channel count, a zero length or
  a non-positive rate raises NotSupportedError. The limits that an implementation may put
  on the channel count and on the rate are not represented.
\<close>

definition createBuffer :: "nat \<Rightarrow> real \<Rightarrow> real \<Rightarrow> js_error + audio_buffer" where
  "createBuffer numChannels len rate =
     (if numChannels = 0 \<or> nat \<lfloor>len\<rfloor> = 0 \<or> rate \<le> 0 then Inl NotSupportedError
      else Inr \<lparr>numberOfChannels = numChannels, frames = nat \<lfloor>len\<rfloor>, sampleRate = rate,
                channelData = replicate numChannels (replicate (nat \<lfloor>len\<rfloor>) (Num 0))\<rparr>)"

definition decode_sample :: "int16 list \<Rightarrow> nat \<Rightarrow> number" where
  "decode_sample dataInt16 j =
     (case ta_get dataInt16 (int j) of
        Some w \<Rightarrow> Num (real_of_int (sint w) / 32768)
      | None \<Rightarrow> NaN)"

function decodeAudioData_inner ::
    "int16 list \<Rightarrow> nat \<Rightarrow> real \<Rightarrow> nat \<Rightarrow> nat \<Rightarrow> number list \<Rightarrow> number list" where
  "decodeAudioData_inner dataInt16 numChannels frameCount channel i chan =
     (if real i < frameCount
      then decodeAudioData_inner dataInt16 numChannels frameCount channel (i + 1)
             (ta_set chan i (decode_sample dataInt16 (i * numChannels + channel)))
      else chan)"
  by pat_completeness auto
termination
  by (relation "measure (\<lambda>(dataInt16, numChannels, frameCount, channel, i, chan).
        nat \<lceil>frameCount\<rceil> - i)") (auto, linarith)

declare decodeAudioData_inner.simps [simp del]

function decodeAudioData_outer ::
    "int16 list \<Rightarrow> nat \<Rightarrow> real \<Rightarrow> nat \<Rightarrow> audio_buffer \<Rightarrow> audio_buffer" where
  "decodeAudioData_outer dataInt16 numChannels frameCount channel buffer =
     (if channel < numChannels
      then decodeAudioData_outer dataInt16 numChannels frameCount (channel + 1)
             (buffer\<lparr>channelData := (channelData buffer)
                [channel := decodeAudioData_inner dataInt16 numChannels frameCount channel 0
                              (channelData buffer ! channel)]\<rparr>)
      else buffer)"
  by pat_completeness auto
termination
  by (relation "measure (\<lambda>(dataInt16, numChannels, frameCount, channel, buffer).
        numChannels - channel)") auto

declare decodeAudioData_outer.simps [simp del]

text \<open>
  \<^verbatim>\<open>decodeAudioData(data, ctx, sampleRate, numChannels)\<close>; the context only supplies
  \<^verbatim>\<open>createBuffer\<close>. For a channel count of zero the quotient \<open>frameCount\<close> is not
  finite in the source; \<^verbatim>\<open>createBuffer\<close> rejects that channel count whatever the
  length.
\<close>

definition decodeAudioData :: "uint8 list \<Rightarrow> real \<Rightarrow> nat \<Rightarrow> js_error + audio_buffer" where
  "decodeAudioData data rate numChannels =
     (case new_Int16Array data of
        Inl e \<Rightarrow> Inl e
      | Inr dataInt16 \<Rightarrow>
          let frameCount = real (length dataInt16) / real numChannels in
          case createBuffer numChannels frameCount rate of
            Inl e \<Rightarrow> Inl e
          | Inr buffer \<Rightarrow> Inr (decodeAudioData_outer dataInt16 numChannels frameCount 0 buffer))"

section \<open>Playback scheduler: \<^verbatim>\<open>useGeminiLive\<close>\<close>

text \<open>
  The state of the hook that the playback path reads and writes: the refs
  \<^verbatim>\<open>outputContextRef\<close>, \<^verbatim>\<open>nextStartTimeRef\<close>, \<^verbatim>\<open>audioSourcesRef\<close> and
  \<^verbatim>\<open>pitchRef\<close>, and the \<^verbatim>\<open>AudioBufferSourceNode\<close> objects created so far. A node is
  referred to by its index in \<open>nodes\<close>; \<open>audioSources\<close> is the JavaScript \<^verbatim>\<open>Set\<close> of
  node references in insertion order. The capture side (microphone stream, input context,
  processor node) and the volume observer are not part of this state.

  Of the output \<^verbatim>\<open>AudioContext\<close> the identity of the object and its clock are
  represented: \<open>currentTime\<close> is the reading of the device clock while a handler runs. A
  node belongs to the context that created it. The detune \<^verbatim>\<open>AudioParam\<close> of a node
  records the value assigned at creation and the automation events scheduled on it.
\<close>

record audio_context =
  context_id :: nat
  currentTime :: real

record audio_param =
  param_value :: real
  param_events :: "(real \<times> real \<times> real) list"

record source_node =
  node_context :: nat
  node_buffer :: audio_buffer
  detune :: audio_param
  start_when :: "real option"
  stopped :: bool

record scheduler =
  outputContext :: "audio_context option"
  nextStartTime :: real
  audioSources :: "nat list"
  pitch :: real
  nodes :: "source_node list"

text \<open>The initial values of the refs.\<close>

definition initial :: scheduler where
  "initial = \<lparr>outputContext = None, nextStartTime = 0, audioSources = [], pitch = 0, nodes = []\<rparr>"

text \<open>
  The constant \<^verbatim>\<open>SAMPLE_RATE_OUTPUT\<close> of the module \<^verbatim>\<open>constants\<close>, the sample rate
  that \<^verbatim>\<open>onmessage\<close> passes to \<^verbatim>\<open>decodeAudioData\<close>.
\<close>

definition SAMPLE_RATE_OUTPUT :: real where
  "SAMPLE_RATE_OUTPUT = 24000"

text \<open>\<^verbatim>\<open>Set.add\<close> and \<^verbatim>\<open>Set.delete\<close> on the insertion-ordered set.\<close>

definition set_add :: "nat list \<Rightarrow> nat \<Rightarrow> nat list" where
  "set_add xs r = (if r \<in> set xs then xs else xs @ [r])"

definition set_delete :: "nat list \<Rightarrow> nat \<Rightarrow> nat list" where
  "set_delete xs r = removeAll r xs"

text \<open>
  \<^verbatim>\<open>source.stop()\<close>. Every node of \<open>audioSources\<close> has been started before it was
  added, so the call does not raise.
\<close>

definition stop :: "source_node \<Rightarrow> source_node" where
  "stop n = n\<lparr>stopped := True\<rparr>"

text \<open>
  The scheduling block of \<^verbatim>\<open>onmessage\<close> (from \<^verbatim>\<open>createBufferSource\<close> to the
  registration of the node), for a decoded buffer and the context captured at the start of
  the handler. The clock of an audio context is never negative, so the start time passed
  to \<^verbatim>\<open>source.start\<close> is accepted.
\<close>

definition schedule_playback :: "audio_context \<Rightarrow> audio_buffer \<Rightarrow> scheduler \<Rightarrow> scheduler" where
  "schedule_playback ctx audioBuffer s =
     (let source = \<lparr>node_context = context_id ctx, node_buffer = audioBuffer,
                     detune = \<lparr>param_value = pitch s, param_events = []\<rparr>,
                     start_when = None, stopped = False\<rparr>;
          now = currentTime ctx;
          s1 = (if nextStartTime s < now then s\<lparr>nextStartTime := now + 0.005\<rparr> else s);
          started = source\<lparr>start_when := Some (nextStartTime s1)\<rparr>;
          s2 = s1\<lparr>nextStartTime := nextStartTime s1 + duration audioBuffer\<rparr>;
          ref = length (nodes s2)
      in s2\<lparr>nodes := nodes s2 @ [started], audioSources := set_add (audioSources s2) ref\<rparr>)"

text \<open>The \<^verbatim>\<open>onended\<close> callback that the scheduling block installs on the node \<open>ref\<close>.\<close>

definition onended :: "nat \<Rightarrow> scheduler \<Rightarrow> scheduler" where
  "onended ref s = s\<lparr>audioSources := set_delete (audioSources s) ref\<rparr>"

text \<open>The interruption block of \<^verbatim>\<open>onmessage\<close>.\<close>

definition handle_interruption :: "scheduler \<Rightarrow> scheduler" where
  "handle_interruption s =
     (let s1 = s\<lparr>nodes := foldl (\<lambda>ns src. ns[src := stop (ns ! src)]) (nodes s) (audioSources s)\<rparr>;
          s2 = s1\<lparr>audioSources := []\<rparr>
      in s2\<lparr>nextStartTime :=
              (case outputContext s2 of
                 None \<Rightarrow> 0
               | Some ctx \<Rightarrow> if currentTime ctx = 0 then 0 else currentTime ctx)\<rparr>)"

text \<open>
  An inbound message: the text of
  \<^verbatim>\<open>serverContent?.modelTurn?.parts?.[0]?.inlineData?.data\<close>, if there is one, and the
  flag \<^verbatim>\<open>serverContent?.interrupted\<close>.
\<close>

record server_message =
  inlineData :: "string option"
  interrupted :: bool

text \<open>
  \<^verbatim>\<open>onmessage\<close>. An exception of the decoding step rejects the promise of the handler:
  the result is \<open>Inl\<close>, the state is as before (nothing was written yet), and the rest of
  the handler, the interruption block included, does not run.
\<close>

definition onmessage :: "server_message \<Rightarrow> scheduler \<Rightarrow> js_error + scheduler" where
  "onmessage message s =
     (case outputContext s of
        None \<Rightarrow> Inr s
      | Some ctx \<Rightarrow>
          (case (case inlineData message of
                   None \<Rightarrow> Inr s
                 | Some base64Audio \<Rightarrow>
                     if base64Audio = [] then Inr s
                     else (case decodeBase64 base64Audio of
                             Inl e \<Rightarrow> Inl e
                           | Inr audioData \<Rightarrow>
                               (case decodeAudioData audioData SAMPLE_RATE_OUTPUT 1 of
                                  Inl e \<Rightarrow> Inl e
                                | Inr audioBuffer \<Rightarrow> Inr (schedule_playback ctx audioBuffer s)))) of
             Inl e \<Rightarrow> Inl e
           | Inr s1 \<Rightarrow> Inr (if interrupted message then handle_interruption s1 else s1)))"

text \<open>
  \<^verbatim>\<open>setTargetAtTime(target, startTime, timeConstant)\<close> of an \<^verbatim>\<open>AudioParam\<close>: the event
  is appended to the automation events of the parameter; a negative start time or a
  negative time constant raises a RangeError. The call does not depend on whether the
  node of the parameter is playing, has finished or was stopped.
\<close>

definition setTargetAtTime :: "audio_param \<Rightarrow> real \<Rightarrow> real \<Rightarrow> real \<Rightarrow> js_error + audio_param" where
  "setTargetAtTime p target startTime timeConstant =
     (if startTime < 0 \<or> timeConstant < 0 then Inl RangeError
      else Inr (p\<lparr>param_events := param_events p @ [(target, startTime, timeConstant)]\<rparr>))"

text \<open>
  \<^verbatim>\<open>setPitch\<close>. \<open>retarget\<close> is the callback of the \<^verbatim>\<open>forEach\<close>: an exception of
  \<^verbatim>\<open>source.detune.setTargetAtTime(cents, now, 0.1)\<close> is caught and the node is left as it
  is.
\<close>

definition retarget :: "real \<Rightarrow> real \<Rightarrow> source_node \<Rightarrow> source_node" where
  "retarget cents now source =
     (case setTargetAtTime (detune source) cents now 0.1 of
        Inr p \<Rightarrow> source\<lparr>detune := p\<rparr>
      | Inl e \<Rightarrow> source)"

definition setPitch :: "real \<Rightarrow> scheduler \<Rightarrow> scheduler" where
  "setPitch cents s =
     (let s1 = s\<lparr>pitch := cents\<rparr>
      in case outputContext s1 of
           None \<Rightarrow> s1
         | Some ctx \<Rightarrow>
             let now = currentTime ctx
             in s1\<lparr>nodes := foldl (\<lambda>ns source. ns[source := retarget cents now (ns ! source)])
                               (nodes s1) (audioSources s1)\<rparr>)"

text \<open>The part of \<^verbatim>\<open>cleanupAudio\<close> that concerns the playback state.\<close>

definition cleanupAudio :: "scheduler \<Rightarrow> scheduler" where
  "cleanupAudio s =
     (let s1 = s\<lparr>nodes := foldl (\<lambda>ns source. ns[source := stop (ns ! source)]) (nodes s) (audioSources s)\<rparr>;
          s2 = s1\<lparr>audioSources := []\<rparr>;
          s3 = s2\<lparr>outputContext := None\<rparr>
      in s3\<lparr>nextStartTime := 0\<rparr>)"

text \<open>
  Several buffers handed to the scheduler one after the other, each with the reading of
  the clock at its arrival.
\<close>

fun schedule_all :: "(audio_context \<times> audio_buffer) list \<Rightarrow> scheduler \<Rightarrow> scheduler" where
  "schedule_all [] s = s"
| "schedule_all ((ctx, audioBuffer) # rest) s = schedule_all rest (schedule_playback ctx audioBuffer s)"

text \<open>
  A node is audible in a state when it belongs to the current output context, has been
  started, has not been stopped, and the clock of the context has not reached the end of
  its buffer. The references of
  \<open>audioSources\<close> are well formed when they are distinct and point to existing nodes.
\<close>

definition audible :: "scheduler \<Rightarrow> source_node \<Rightarrow> bool" where
  "audible s n =
     (\<not> stopped n \<and>
      (case outputContext s of
         None \<Rightarrow> False
       | Some ctx \<Rightarrow>
           node_context n = context_id ctx \<and>
           (case start_when n of
              None \<Rightarrow> False
            | Some w \<Rightarrow> currentTime ctx < w + duration (node_buffer n))))"

definition well_formed :: "scheduler \<Rightarrow> bool" where
  "well_formed s = (distinct (audioSources s) \<and> (\<forall>r \<in> set (audioSources s). r < length (nodes s)))"

definition tracked :: "scheduler \<Rightarrow> bool" where
  "tracked s = (\<forall>r < length (nodes s). audible s (nodes s ! r) \<longrightarrow> r \<in> set (audioSources s))"

text \<open>
  The states that the hook reaches: \<^verbatim>\<open>connect\<close> stores a fresh output context, the
  device clock advances, messages arrive, the platform fires \<^verbatim>\<open>onended\<close> for a node
  that is no longer audible, the pitch is set, and \<^verbatim>\<open>cleanupAudio\<close> runs.
\<close>

inductive reachable :: "scheduler \<Rightarrow> bool" where
  reach_initial: "reachable initial"
| reach_connect: "reachable s \<Longrightarrow> outputContext s = None \<Longrightarrow>
    \<forall>n \<in> set (nodes s). node_context n \<noteq> c \<Longrightarrow>
    reachable (s\<lparr>outputContext := Some \<lparr>context_id = c, currentTime = 0\<rparr>\<rparr>)"
| reach_clock: "reachable s \<Longrightarrow> outputContext s = Some ctx \<Longrightarrow> currentTime ctx \<le> t \<Longrightarrow>
    reachable (s\<lparr>outputContext := Some (ctx\<lparr>currentTime := t\<rparr>)\<rparr>)"
| reach_message: "reachable s \<Longrightarrow> onmessage message s = Inr s' \<Longrightarrow> reachable s'"
| reach_onended: "reachable s \<Longrightarrow> r < length (nodes s) \<Longrightarrow> \<not> audible s (nodes s ! r) \<Longrightarrow>
    reachable (onended r s)"
| reach_setPitch: "reachable s \<Longrightarrow> reachable (setPitch cents s)"
| reach_cleanup: "reachable s \<Longrightarrow> reachable (cleanupAudio s)"

text \<open>
  \<open>later s s'\<close>: the state \<open>s'\<close> is reached from \<open>s\<close> by any number of these events other
  than a call of \<^verbatim>\<open>setPitch\<close>.
\<close>

inductive later :: "scheduler \<Rightarrow> scheduler \<Rightarrow> bool" for s :: scheduler where
  later_refl: "later s s"
| later_connect: "later s u \<Longrightarrow> outputContext u = None \<Longrightarrow>
    \<forall>n \<in> set (nodes u). node_context n \<noteq> c \<Longrightarrow>
    later s (u\<lparr>outputContext := Some \<lparr>context_id = c, currentTime = 0\<rparr>\<rparr>)"
| later_clock: "later s u \<Longrightarrow> outputContext u = Some ctx \<Longrightarrow> currentTime ctx \<le> t \<Longrightarrow>
    later s (u\<lparr>outputContext := Some (ctx\<lparr>currentTime := t\<rparr>)\<rparr>)"
| later_message: "later s u \<Longrightarrow> onmessage message u = Inr u' \<Longrightarrow> later s u'"
| later_onended: "later s u \<Longrightarrow> r < length (nodes u) \<Longrightarrow> \<not> audible u (nodes u ! r) \<Longrightarrow>
    later s (onended r u)"
| later_cleanup: "later s u \<Longrightarrow> later s (cleanupAudio u)"

text \<open>
  \<open>created_with s u\<close>: the pitch of \<open>u\<close> is that of \<open>s\<close>, and every node of \<open>u\<close> that
  \<open>s\<close> does not have yet was created with that pitch as the value of its detune
  parameter.
\<close>

definition created_with :: "scheduler \<Rightarrow> scheduler \<Rightarrow> bool" where
  "created_with s u = (pitch u = pitch s \<and> length (nodes s) \<le> length (nodes u) \<and>
     (\<forall>r < length (nodes u). length (nodes s) \<le> r \<longrightarrow> param_value (detune (nodes u ! r)) = pitch s))"

section \<open>Example values\<close>

text \<open>
  A payload of two samples, the buffer it decodes to, a state in which the output context
  exists, and the states reached from it by one and by two audio messages. In
  \<open>example_two\<close> the clock has passed the end of the first node, whose \<^verbatim>\<open>onended\<close>
  callback has not run yet.
\<close>

definition example_audio :: string where
  "example_audio = ''AEAAwA==''"

definition example_buffer :: audio_buffer where
  "example_buffer = \<lparr>numberOfChannels = 1, frames = 2, sampleRate = 24000,
                      channelData = [[Num (1 / 2), Num (- (1 / 2))]]\<rparr>"

definition example_context :: "real \<Rightarrow> audio_context" where
  "example_context t = \<lparr>context_id = 0, currentTime = t\<rparr>"

definition example_connected :: scheduler where
  "example_connected = initial\<lparr>outputContext := Some (example_context 1)\<rparr>"

definition example_playing :: scheduler where
  "example_playing = schedule_playback (example_context 1) example_buffer example_connected"

definition example_two :: scheduler where
  "example_two = schedule_playback (example_context 2) example_buffer
                   (example_playing\<lparr>outputContext := Some (example_context 2)\<rparr>)"

section \<open>Properties of the level meter\<close>

lemma rms_loop_sum:
  "i \<le> length data \<Longrightarrow> rms_loop data i s = s + sum_list (map (\<lambda>x. x * x) (drop i data))"
proof (induction data i s rule: rms_loop.induct)
  case (1 data i s)
  show ?case
  proof (cases "i < length data")
    case True
    have d: "drop i data = data ! i # drop (Suc i) data"
      using True by (simp add: Cons_nth_drop_Suc)
    have "rms_loop data i s = rms_loop data (i + 1) (s + data ! i * data ! i)"
      using True by (subst rms_loop.simps) simp
    also have "\<dots> = (s + data ! i * data ! i) + sum_list (map (\<lambda>x. x * x) (drop (i + 1) data))"
      using True by (intro "1.IH") auto
    finally show ?thesis
      by (simp add: d)
  next
    case False
    with "1.prems" show ?thesis by (subst rms_loop.simps) simp
  qed
qed

lemma rms_loop_all: "rms_loop data 0 0 = sum_list (map (\<lambda>x. x * x) data)"
  using rms_loop_sum [of 0 data 0] by simp

lemma sum_squares_nonneg: "0 \<le> sum_list (map (\<lambda>x. x * x) (data :: real list))"
  by (induction data) auto

lemma calculateRMS_nonempty:
  "data \<noteq> [] \<Longrightarrow>
   calculateRMS data = Num (sqrt (sum_list (map (\<lambda>x. x * x) data) / real (length data)))"
proof -
  assume ne: "data \<noteq> []"
  have "\<not> sum_list (map (\<lambda>x. x * x) data) / real (length data) < 0"
    using sum_squares_nonneg [of data] by (simp add: not_less)
  then show ?thesis
    using ne by (simp add: calculateRMS_def js_div_def rms_loop_all)
qed

lemma sum_squares_replicate: "sum_list (map (\<lambda>x. x * x) (replicate n (v::real))) = real n * (v * v)"
  by (induction n) (auto simp: algebra_simps)

lemma calculateRMS_constant:
  assumes "0 < n"
  shows "calculateRMS (replicate n v) = Num \<bar>v\<bar>"
proof -
  have "sum_list (map (\<lambda>x. x * x) (replicate n v)) / real (length (replicate n v)) = v * v"
    using assms by (simp add: sum_squares_replicate del: map_replicate)
  moreover have "replicate n v \<noteq> []"
    using assms by simp
  ultimately show ?thesis
    using calculateRMS_nonempty [of "replicate n v"] by simp
qed

lemma calculateRMS_empty: "calculateRMS [] = NaN"
  by (simp add: calculateRMS_def js_div_def rms_loop_all)

section \<open>Properties of the rounding\<close>

lemma expo_up_bounds: "1 \<le> x \<Longrightarrow> 2 powi expo_up x \<le> x \<and> x < 2 powi (expo_up x + 1)"
proof (induction x rule: expo_up.induct)
  case (1 x)
  show ?case
  proof (cases "2 \<le> x")
    case True
    then have "2 powi expo_up (x / 2) \<le> x / 2 \<and> x / 2 < 2 powi (expo_up (x / 2) + 1)"
      using 1 by simp
    moreover have "expo_up x = expo_up (x / 2) + 1"
      using True by (subst expo_up.simps) simp
    ultimately show ?thesis
      by (simp add: power_int_add)
  next
    case False
    then have "expo_up x = 0"
      by (subst expo_up.simps) simp
    then show ?thesis
      using False 1(2) by simp
  qed
qed

lemma expo_down_bounds:
  "0 < x \<Longrightarrow> x < 1 \<Longrightarrow> 2 powi expo_down x \<le> x \<and> x < 2 powi (expo_down x + 1)"
proof (induction x rule: expo_down.induct)
  case (1 x)
  have e: "expo_down x = expo_down (2 * x) - 1"
    using 1(2,3) by (subst expo_down.simps) simp
  show ?case
  proof (cases "2 * x < 1")
    case True
    then have "2 powi expo_down (2 * x) \<le> 2 * x \<and> 2 * x < 2 powi (expo_down (2 * x) + 1)"
      using 1 by simp
    then show ?thesis
      using e by (simp add: power_int_add power_int_diff)
  next
    case False
    then have "expo_down (2 * x) = 0"
      by (subst expo_down.simps) simp
    then show ?thesis
      using False 1(3) e by (simp add: power_int_minus)
  qed
qed

lemma expo_bounds: "0 < x \<Longrightarrow> 2 powi expo x \<le> x \<and> x < 2 powi (expo x + 1)"
  using expo_up_bounds [of x] expo_down_bounds [of x] by (cases "1 \<le> x") (simp_all add: expo_def)

lemma powi_mono: "m \<le> n \<Longrightarrow> (2::real) powi m \<le> 2 powi n"
  by (rule power_int_increasing) simp_all

lemma powi_pos: "0 < (2::real) powi n"
  by (simp add: power_int_def)

lemma powi_less_iff: "(2::real) powi m < 2 powi n \<longleftrightarrow> m < n"
proof
  assume "(2::real) powi m < 2 powi n"
  then have "\<not> (2::real) powi n \<le> 2 powi m"
    by simp
  then have "\<not> n \<le> m"
    using powi_mono by blast
  then show "m < n"
    by simp
next
  assume "m < n"
  then show "(2::real) powi m < 2 powi n"
    by (rule power_int_strict_increasing) simp
qed

lemma powi_le_iff: "(2::real) powi m \<le> 2 powi n \<longleftrightarrow> m \<le> n"
  using powi_less_iff [of n m] by auto

lemma expo_unique:
  assumes "0 < x" "2 powi e \<le> x" "x < 2 powi (e + 1)"
  shows "expo x = e"
proof -
  have b: "2 powi expo x \<le> x" "x < 2 powi (expo x + 1)"
    using expo_bounds [OF assms(1)] by simp_all
  have "(2::real) powi e < 2 powi (expo x + 1)" "(2::real) powi expo x < 2 powi (e + 1)"
    using b assms by linarith+
  then have "e < expo x + 1" "expo x < e + 1"
    by (simp_all only: powi_less_iff)
  then show ?thesis
    by simp
qed

lemma expo_mono:
  assumes "0 < x" "x \<le> y"
  shows "expo x \<le> expo y"
proof -
  have "2 powi expo x \<le> x" "y < 2 powi (expo y + 1)"
    using expo_bounds [of x] expo_bounds [of y] assms by simp_all
  then have "(2::real) powi expo x < 2 powi (expo y + 1)"
    using assms by linarith
  then show ?thesis
    by (simp only: powi_less_iff)
qed

lemma round_even_error: "\<bar>of_int (round_even y) - y\<bar> \<le> 1 / 2"
  unfolding round_even_def Let_def by (auto; linarith)

lemma round_even_int [simp]: "round_even (of_int n) = n"
  by (simp add: round_even_def)

lemma round_even_0 [simp]: "round_even 0 = 0"
  by (simp add: round_even_def)

lemma round_even_floor: "\<lfloor>y\<rfloor> \<le> round_even y \<and> round_even y \<le> \<lfloor>y\<rfloor> + 1"
  by (simp add: round_even_def Let_def)

lemma round_even_mono:
  assumes "x \<le> y"
  shows "round_even x \<le> round_even y"
proof (cases "\<lfloor>x\<rfloor> = \<lfloor>y\<rfloor>")
  case True
  then show ?thesis
    using assms by (auto simp: round_even_def Let_def)
next
  case False
  then have "\<lfloor>x\<rfloor> + 1 \<le> \<lfloor>y\<rfloor>"
    using floor_mono [OF assms] by simp
  then show ?thesis
    using round_even_floor [of x] round_even_floor [of y] by linarith
qed

lemma round_even_minus: "round_even (- y) = - round_even y"
proof (cases "y = of_int \<lfloor>y\<rfloor>")
  case True
  then obtain n where "y = of_int n"
    by blast
  then have "- y = of_int (- n)"
    by simp
  then show ?thesis
    using \<open>y = of_int n\<close> by (simp only: round_even_int)
next
  case False
  then have f: "\<lfloor>- y\<rfloor> = - \<lfloor>y\<rfloor> - 1"
    by (simp add: floor_minus ceiling_altdef)
  have "y - of_int \<lfloor>y\<rfloor> < 1" "0 \<le> y - of_int \<lfloor>y\<rfloor>"
    by linarith+
  then show ?thesis
    unfolding round_even_def Let_def f by (auto simp: field_simps)
qed

lemma round_to_quantum:
  "round_to p emin x = of_int (round_even (x / 2 powi quantum p emin x)) * 2 powi quantum p emin x"
  by (simp add: round_to_def Let_def)

lemma quantum_minus [simp]: "quantum p emin (- x) = quantum p emin x"
  by (simp add: quantum_def)

lemma round_to_minus: "round_to p emin (- x) = - round_to p emin x"
  by (simp add: round_to_quantum round_even_minus)

lemma round_to_0 [simp]: "round_to p emin 0 = 0"
  by (simp add: round_to_quantum)

lemma round_to_nonneg: "0 \<le> x \<Longrightarrow> 0 \<le> round_to p emin x"
proof -
  assume "0 \<le> x"
  then have "0 \<le> x / 2 powi quantum p emin x"
    using powi_pos [of "quantum p emin x"] by simp
  then have "round_even 0 \<le> round_even (x / 2 powi quantum p emin x)"
    by (rule round_even_mono)
  then have "0 \<le> round_even (x / 2 powi quantum p emin x)"
    by simp
  then show ?thesis
    using powi_pos [of "quantum p emin x"] by (simp add: round_to_quantum)
qed

lemma round_to_error: "\<bar>round_to p emin x - x\<bar> \<le> 2 powi (quantum p emin x - 1)"
proof -
  define g :: real where "g = 2 powi quantum p emin x"
  define y where "y = x / g"
  have g: "0 < g"
    by (simp add: g_def powi_pos)
  then have x: "x = y * g"
    by (simp add: y_def)
  have "round_to p emin x - x = (of_int (round_even y) - y) * g"
    unfolding round_to_quantum g_def [symmetric] y_def [symmetric] by (simp add: x left_diff_distrib)
  then have "\<bar>round_to p emin x - x\<bar> = \<bar>of_int (round_even y) - y\<bar> * g"
    using g by (simp add: abs_mult)
  also have "\<dots> \<le> (1 / 2) * g"
    using round_even_error [of y] g by (simp only: mult_right_mono less_imp_le)
  also have "\<dots> = 2 powi (quantum p emin x - 1)"
    by (simp add: g_def power_int_diff)
  finally show ?thesis .
qed

lemma powi_nat: "(2::real) powi int p = of_int (2 ^ p)"
  by simp

lemma round_even_near: "of_int m \<le> y \<Longrightarrow> y < of_int m + 1 / 2 \<Longrightarrow> round_even y = m"
proof -
  assume a: "of_int m \<le> y" "y < of_int m + 1 / 2"
  then have "\<lfloor>y\<rfloor> = m"
    by linarith
  then show ?thesis
    using a by (simp add: round_even_def Let_def)
qed

lemma quantum_ge: "emin - (int p - 1) \<le> quantum p emin x"
  by (simp add: quantum_def)

lemma quantum_bound:
  "\<bar>x\<bar> < 2 powi (quantum p emin x + int p)"
proof (cases "x = 0")
  case True
  then show ?thesis
    by (simp add: powi_pos)
next
  case False
  then have "\<bar>x\<bar> < 2 powi (expo \<bar>x\<bar> + 1)"
    using expo_bounds [of "\<bar>x\<bar>"] by simp
  also have "\<dots> \<le> 2 powi (quantum p emin x + int p)"
    by (rule powi_mono) (simp add: quantum_def)
  finally show ?thesis .
qed

lemma quantum_mono:
  assumes "\<bar>x\<bar> \<le> \<bar>y\<bar>" "x \<noteq> 0"
  shows "quantum p emin x \<le> quantum p emin y"
  using expo_mono [of "\<bar>x\<bar>" "\<bar>y\<bar>"] assms by (simp add: quantum_def)

lemma round_to_upper:
  assumes "x \<le> of_int n * 2 powi quantum p emin x"
  shows "round_to p emin x \<le> of_int n * 2 powi quantum p emin x"
proof -
  let ?g = "2 powi quantum p emin x :: real"
  have g: "0 < ?g"
    by (rule powi_pos)
  then have "x / ?g \<le> of_int n"
    using assms by (simp add: field_simps)
  then have "round_even (x / ?g) \<le> round_even (of_int n)"
    by (rule round_even_mono)
  then have "(of_int (round_even (x / ?g)) :: real) \<le> of_int n"
    by simp
  then show ?thesis
    using g by (simp add: round_to_quantum)
qed

lemma round_to_lower:
  assumes "of_int n * 2 powi quantum p emin x \<le> x"
  shows "of_int n * 2 powi quantum p emin x \<le> round_to p emin x"
proof -
  let ?g = "2 powi quantum p emin x :: real"
  have g: "0 < ?g"
    by (rule powi_pos)
  then have "of_int n \<le> x / ?g"
    using assms by (simp add: field_simps)
  then have "round_even (of_int n) \<le> round_even (x / ?g)"
    by (rule round_even_mono)
  then have "(of_int n :: real) \<le> of_int (round_even (x / ?g))"
    by simp
  then show ?thesis
    using g by (simp add: round_to_quantum)
qed

lemma round_to_mono_pos:
  assumes "0 < x" "x \<le> y" "0 < p"
  shows "round_to p emin x \<le> round_to p emin y"
proof -
  let ?qx = "quantum p emin x" and ?qy = "quantum p emin y"
  have q: "?qx \<le> ?qy"
    using assms by (intro quantum_mono) simp_all
  show ?thesis
  proof (cases "?qx = ?qy")
    case True
    have "x / 2 powi ?qx \<le> y / 2 powi ?qx"
      using assms powi_pos [of ?qx] by (simp add: divide_right_mono)
    then have "round_even (x / 2 powi ?qx) \<le> round_even (y / 2 powi ?qx)"
      by (rule round_even_mono)
    then show ?thesis
      using powi_pos [of ?qx] True by (simp add: round_to_quantum)
  next
    case False
    then have lt: "?qx < ?qy"
      using q by simp
    obtain j where j: "p = Suc j"
      using assms(3) by (cases p) simp_all
    have "emin - (int p - 1) < ?qy"
      using lt quantum_ge [of emin p x] by linarith
    then have ey: "?qy = expo \<bar>y\<bar> - (int p - 1)"
      by (simp add: quantum_def max_def split: if_splits)
    have "x < 2 powi (?qx + int p)"
      using quantum_bound [of x p emin] assms by simp
    also have "\<dots> = of_int (2 ^ p) * 2 powi ?qx"
      by (simp add: power_int_add)
    finally have "round_to p emin x \<le> of_int (2 ^ p) * 2 powi ?qx"
      by (intro round_to_upper) simp
    also have "\<dots> = 2 powi (?qx + int p)"
      by (simp add: power_int_add)
    also have "\<dots> \<le> 2 powi (int j + ?qy)"
      using lt j by (intro powi_mono) simp
    also have "\<dots> = of_int (2 ^ j) * 2 powi ?qy"
      by (simp add: power_int_add)
    also have "\<dots> \<le> round_to p emin y"
    proof (rule round_to_lower)
      have "2 powi expo \<bar>y\<bar> \<le> \<bar>y\<bar>"
        using expo_bounds [of "\<bar>y\<bar>"] assms by simp
      moreover have "expo \<bar>y\<bar> = int j + ?qy"
        using ey j by simp
      ultimately show "of_int (2 ^ j) * 2 powi ?qy \<le> y"
        using assms by (simp add: power_int_add)
    qed
    finally show ?thesis .
  qed
qed

lemma round_to_mono:
  assumes "x \<le> y" "0 < p"
  shows "round_to p emin x \<le> round_to p emin y"
proof -
  consider "0 < x" | "x \<le> 0" "0 \<le> y" | "y < 0"
    using assms by linarith
  then show ?thesis
  proof cases
    case 1
    then show ?thesis
      using assms by (rule round_to_mono_pos)
  next
    case 2
    then have "0 \<le> round_to p emin (- x)" "0 \<le> round_to p emin y"
      by (simp_all add: round_to_nonneg)
    then show ?thesis
      by (simp add: round_to_minus)
  next
    case 3
    then have "round_to p emin (- y) \<le> round_to p emin (- x)"
      using assms by (intro round_to_mono_pos) simp_all
    then show ?thesis
      by (simp add: round_to_minus)
  qed
qed

lemma round_to_fix_strict:
  assumes "x = of_int m * 2 powi k" "\<bar>m\<bar> < 2 ^ p" "emin - (int p - 1) \<le> k"
  shows "round_to p emin x = x"
proof (cases "x = 0")
  case True
  then show ?thesis
    by simp
next
  case False
  let ?q = "quantum p emin x"
  have "\<bar>x\<bar> = of_int \<bar>m\<bar> * 2 powi k"
    using powi_pos [of k] by (simp add: assms(1) abs_mult)
  also have "\<dots> < of_int (2 ^ p) * 2 powi k"
    using assms(2) powi_pos [of k] by (simp only: mult_strict_right_mono of_int_less_iff)
  also have "\<dots> = 2 powi (int p + k)"
    by (simp add: power_int_add)
  finally have "2 powi expo \<bar>x\<bar> < (2::real) powi (int p + k)"
    using expo_bounds [of "\<bar>x\<bar>"] False by simp
  then have "expo \<bar>x\<bar> < int p + k"
    by (simp only: powi_less_iff)
  then have "?q \<le> k"
    using assms(3) by (simp add: quantum_def)
  then obtain d where d: "k = ?q + int d"
    using zle_iff_zadd by blast
  define g :: real where "g = 2 powi ?q"
  have g: "0 < g"
    by (simp add: g_def powi_pos)
  have pk: "(2::real) powi k = 2 powi ?q * 2 powi int d"
    by (subst d) (simp add: power_int_add)
  have "x = of_int m * 2 powi k"
    by (fact assms(1))
  also have "\<dots> = of_int m * (2 powi ?q * 2 powi int d)"
    by (simp only: pk)
  also have "\<dots> = of_int (m * 2 ^ d) * g"
    by (simp add: g_def)
  finally have x: "x = of_int (m * 2 ^ d) * g" .
  then have "x / g = of_int (m * 2 ^ d)"
    using g by simp
  then have "round_even (x / g) = m * 2 ^ d"
    by (simp only: round_even_int)
  then have "round_to p emin x = of_int (m * 2 ^ d) * g"
    unfolding round_to_quantum g_def by simp
  then show ?thesis
    using x by simp
qed

lemma round_to_fix:
  assumes "x = of_int m * 2 powi k" "\<bar>m\<bar> \<le> 2 ^ p" "emin - (int p - 1) \<le> k" "0 < p"
  shows "round_to p emin x = x"
proof (cases "\<bar>m\<bar> < 2 ^ p")
  case True
  then show ?thesis
    using assms by (intro round_to_fix_strict [of x m k])
next
  case False
  then have m: "\<bar>m\<bar> = 2 ^ p"
    using assms(2) by simp
  obtain j where j: "p = Suc j"
    using assms(4) by (cases p) simp_all
  define m' where "m' = (if 0 \<le> m then 2 ^ j else - (2 ^ j) :: int)"
  have "m = 2 * m'"
    using m by (auto simp: m'_def j abs_if split: if_splits)
  then have "x = of_int m' * 2 powi (k + 1)"
    by (simp add: assms(1) power_int_add)
  moreover have "\<bar>m'\<bar> < 2 ^ p"
    by (simp add: m'_def j)
  ultimately show ?thesis
    using assms(3) by (intro round_to_fix_strict [of x m' "k + 1"]) simp_all
qed

lemma round_to_mantissa:
  assumes "0 < p"
  shows "\<bar>round_even (x / 2 powi quantum p emin x)\<bar> \<le> 2 ^ p"
proof -
  let ?g = "2 powi quantum p emin x :: real"
  have g: "0 < ?g"
    by (rule powi_pos)
  have "\<bar>x\<bar> < 2 powi (quantum p emin x + int p)"
    by (rule quantum_bound)
  also have "\<dots> = of_int (2 ^ p) * ?g"
    by (simp add: power_int_add)
  finally have "x \<le> of_int (2 ^ p) * ?g" "of_int (- (2 ^ p)) * ?g \<le> x"
    by simp_all
  then have "x / ?g \<le> of_int (2 ^ p)" "of_int (- (2 ^ p)) \<le> x / ?g"
    using g by (simp_all only: pos_le_divide_eq pos_divide_le_eq)
  then have "round_even (x / ?g) \<le> round_even (of_int (2 ^ p))"
    "round_even (of_int (- (2 ^ p))) \<le> round_even (x / ?g)"
    by (simp_all only: round_even_mono)
  then show ?thesis
    by (simp only: round_even_int)
qed

lemma round_to_idem:
  assumes "0 < p"
  shows "round_to p emin (round_to p emin x) = round_to p emin x"
  using round_to_mantissa [OF assms, of x emin] quantum_ge [of emin p x] assms
  by (intro round_to_fix [of _ "round_even (x / 2 powi quantum p emin x)" "quantum p emin x"])
     (simp_all add: round_to_quantum)

lemma round_to_grid:
  assumes "round_to p emin x = x" "0 < p"
  obtains m where "x = of_int m * 2 powi quantum p emin x" "\<bar>m\<bar> \<le> 2 ^ p"
  using assms round_to_mantissa [OF assms(2), of x emin] by (metis round_to_quantum)

lemma round_to_widen:
  assumes "round_to p emin x = x" "0 < p" "p \<le> p'" "emin' - int p' \<le> emin - int p"
  shows "round_to p' emin' x = x"
proof -
  obtain m where m: "x = of_int m * 2 powi quantum p emin x" "\<bar>m\<bar> \<le> 2 ^ p"
    by (rule round_to_grid [OF assms(1,2)])
  have "(2::int) ^ p \<le> 2 ^ p'"
    using assms(3) by (simp add: power_increasing)
  then have "\<bar>m\<bar> \<le> 2 ^ p'"
    using m(2) by linarith
  moreover have "emin' - (int p' - 1) \<le> quantum p emin x"
    using quantum_ge [of emin p x] assms(4) by simp
  ultimately show ?thesis
    using m(1) assms by (intro round_to_fix [of x m "quantum p emin x"]) simp_all
qed

lemma quantum_upper:
  assumes "\<bar>t\<bar> < 2 powi (k + int p)" "emin - (int p - 1) \<le> k" "t \<noteq> 0"
  shows "quantum p emin t \<le> k"
proof -
  have "2 powi expo \<bar>t\<bar> \<le> \<bar>t\<bar>"
    using expo_bounds [of "\<bar>t\<bar>"] assms(3) by simp
  then have "(2::real) powi expo \<bar>t\<bar> < 2 powi (k + int p)"
    using assms(1) by linarith
  then have "expo \<bar>t\<bar> < k + int p"
    by (simp only: powi_less_iff)
  then show ?thesis
    using assms(2) by (simp add: quantum_def)
qed

lemma quantum_lower:
  assumes "2 powi (k + int p - 1) \<le> \<bar>t\<bar>"
  shows "k \<le> quantum p emin t"
proof -
  have "0 < \<bar>t\<bar>"
    using assms powi_pos [of "k + int p - 1"] by linarith
  then have "\<bar>t\<bar> < 2 powi (expo \<bar>t\<bar> + 1)"
    using expo_bounds [of "\<bar>t\<bar>"] by simp
  then have "(2::real) powi (k + int p - 1) < 2 powi (expo \<bar>t\<bar> + 1)"
    using assms by linarith
  then have "k + int p - 1 < expo \<bar>t\<bar> + 1"
    by (simp only: powi_less_iff)
  then show ?thesis
    by (simp add: quantum_def)
qed

lemma round_to_same_quantum:
  assumes "quantum p emin t = k" "of_int m * 2 powi k \<le> t" "t < (of_int m + 1 / 2) * 2 powi k"
  shows "round_to p emin t = of_int m * 2 powi k"
proof -
  have g: "0 < (2::real) powi k"
    by (rule powi_pos)
  then have "of_int m \<le> t / 2 powi k" "t / 2 powi k < of_int m + 1 / 2"
    using assms(2,3) by (simp_all only: pos_le_divide_eq pos_divide_less_eq)
  then have "round_even (t / 2 powi k) = m"
    by (rule round_even_near)
  then show ?thesis
    by (simp add: round_to_quantum assms(1))
qed

lemma round_to_near:
  assumes rep: "round_to p emin h = h" and h0: "h \<noteq> 0" and le: "h \<le> t"
    and lt: "t < h + 2 powi (quantum p emin h - 2)" and p: "2 \<le> p"
  shows "round_to p emin t = h"
proof -
  define k where "k = quantum p emin h"
  define g :: real where "g = 2 powi k"
  have g: "0 < g"
    by (simp add: g_def powi_pos)
  have kmin: "emin - (int p - 1) \<le> k"
    unfolding k_def by (rule quantum_ge)
  obtain j where "p = 2 + j"
    using p le_Suc_ex by blast
  then have j: "p = Suc (Suc j)"
    by simp
  obtain m where m: "h = of_int m * g"
    using round_to_grid [OF rep, of thesis] p unfolding g_def k_def by auto
  have quarter: "2 powi (k - 2) = g / 4"
    by (simp add: g_def power_int_diff)
  have "t < h + g / 4"
    using lt unfolding k_def [symmetric] quarter .
  then have t4: "t < (of_int m + 1 / 4) * g"
    unfolding m by (simp add: algebra_simps)
  have t2: "t < (of_int m + 1 / 2) * g"
  proof -
    have "(of_int m + 1 / 4) * g \<le> (of_int m + 1 / 2) * g"
      using g by (simp add: algebra_simps)
    then show ?thesis
      using t4 by linarith
  qed
  have pg: "2 powi (k + int p) = of_int (2 ^ p) * g"
    by (simp add: g_def power_int_add)
  have hb: "\<bar>h\<bar> < of_int (2 ^ p) * g"
    using quantum_bound [of h p emin] unfolding k_def [symmetric] pg .
  show ?thesis
  proof (cases "0 < h")
    case True
    then have "of_int m * g < of_int (2 ^ p) * g"
      using hb m by simp
    then have "m < 2 ^ p"
      using g by (simp only: mult_less_cancel_right_pos of_int_less_iff)
    then have "of_int m + 1 / 4 \<le> (of_int (2 ^ p) :: real)"
    proof -
      assume "m < 2 ^ p"
      then have "m + 1 \<le> 2 ^ p"
        by simp
      then have "(of_int (m + 1) :: real) \<le> of_int (2 ^ p)"
        by (simp only: of_int_le_iff)
      then show ?thesis
        by simp
    qed
    then have "(of_int m + 1 / 4) * g \<le> of_int (2 ^ p) * g"
      using g by (simp only: mult_right_mono less_imp_le)
    then have "\<bar>t\<bar> < 2 powi (k + int p)"
      using t4 True le unfolding pg by simp
    moreover have "t \<noteq> 0"
      using True le by simp
    ultimately have "quantum p emin t \<le> k"
      using kmin by (intro quantum_upper)
    moreover have "k \<le> quantum p emin t"
      unfolding k_def using True le h0 by (intro quantum_mono) simp_all
    ultimately have "quantum p emin t = k"
      by simp
    then have "round_to p emin t = of_int m * 2 powi k"
      using le t2 unfolding m g_def by (rule round_to_same_quantum)
    then show ?thesis
      by (simp add: m g_def)
  next
    case False
    then have neg: "h < 0"
      using h0 by simp
    then have "of_int m * g < 0"
      using m by simp
    then have "of_int m < (0::real)"
      using g by (simp add: mult_less_0_iff)
    then have m1: "m \<le> - 1"
      by simp
    then have "of_int m + 1 / 4 < (0::real)"
    proof -
      have "(of_int m :: real) \<le> of_int (- 1)"
        using m1 by (simp only: of_int_le_iff)
      then show ?thesis
        by simp
    qed
    then have "(of_int m + 1 / 4) * g < 0"
      using g by (simp add: mult_less_0_iff)
    then have tneg: "t < 0"
      using t4 by linarith
    then have tq: "quantum p emin t \<le> k"
      unfolding k_def using le neg by (intro quantum_mono) simp_all
    show ?thesis
    proof (cases "quantum p emin t = k")
      case True
      then have "round_to p emin t = of_int m * 2 powi k"
        using le t2 unfolding m g_def by (rule round_to_same_quantum)
      then show ?thesis
        by (simp add: m g_def)
    next
      case False
      then have tk: "quantum p emin t \<le> k - 1"
        using tq by simp
      then have "emin - (int p - 1) < k"
        using quantum_ge [of emin p t] by linarith
      then have "k = expo \<bar>h\<bar> - (int p - 1)"
        unfolding k_def by (simp add: quantum_def max_def split: if_splits)
      then have "expo \<bar>h\<bar> = int (Suc j) + k"
        by (simp add: j)
      then have "2 powi (int (Suc j) + k) \<le> \<bar>h\<bar>"
        using expo_bounds [of "\<bar>h\<bar>"] h0 by simp
      then have "of_int (2 ^ Suc j) * g \<le> - h"
        using neg unfolding g_def by (simp add: power_int_add)
      then have "of_int (2 ^ Suc j) * g \<le> of_int (- m) * g"
        unfolding m by simp
      then have "(of_int (2 ^ Suc j) :: real) \<le> of_int (- m)"
        using g by (simp only: mult_le_cancel_right_pos)
      then have mlow: "2 ^ Suc j \<le> - m"
        by (simp only: of_int_le_iff)
      have "\<bar>t\<bar> < 2 powi (quantum p emin t + int p)"
        by (rule quantum_bound)
      also have "\<dots> \<le> 2 powi (k - 1 + int p)"
        using tk by (intro powi_mono) simp
      also have "\<dots> = of_int (2 ^ Suc j) * g"
        by (simp add: g_def j power_int_add power_int_diff)
      finally have "- t < of_int (2 ^ Suc j) * g"
        by simp
      moreover have "(of_int (- m) - 1 / 4) * g < - t"
        using t4 by (simp add: algebra_simps)
      ultimately have "(of_int (- m) - 1 / 4) * g < of_int (2 ^ Suc j) * g"
        by linarith
      then have "of_int (- m) - 1 / 4 < (of_int (2 ^ Suc j) :: real)"
        using g by (simp only: mult_less_cancel_right_pos)
      then have "(of_int (- m) :: real) < of_int (2 ^ Suc j + 1)"
        by simp
      then have "- m < 2 ^ Suc j + 1"
        by (simp only: of_int_less_iff)
      then have meq: "m = - (2 ^ Suc j)"
        using mlow by simp
      have "(of_int (2 ^ j) :: real) \<le> of_int (2 ^ Suc j) - 1 / 4"
      proof -
        have "(of_int (2 ^ Suc j) :: real) = 2 * of_int (2 ^ j)"
          by simp
        moreover have "(1::real) \<le> of_int (2 ^ j)"
          by simp
        ultimately show ?thesis
          by linarith
      qed
      then have "of_int (2 ^ j) * g \<le> (of_int (2 ^ Suc j) - 1 / 4) * g"
        using g by (simp only: mult_right_mono less_imp_le)
      also have "\<dots> < - t"
        using t4 unfolding meq by (simp add: algebra_simps)
      finally have "of_int (2 ^ j) * g \<le> \<bar>t\<bar>"
        using tneg by simp
      moreover have "2 powi (k - 1 + int p - 1) = of_int (2 ^ j) * g"
        by (simp add: g_def j power_int_add power_int_diff)
      ultimately have "2 powi (k - 1 + int p - 1) \<le> \<bar>t\<bar>"
        by simp
      then have "k - 1 \<le> quantum p emin t"
        by (rule quantum_lower)
      then have qt: "quantum p emin t = k - 1"
        using tk by simp
      have half: "2 powi (k - 1) = g / 2"
        by (simp add: g_def power_int_diff)
      have "round_to p emin t = of_int (2 * m) * 2 powi (k - 1)"
      proof (rule round_to_same_quantum [OF qt])
        show "of_int (2 * m) * 2 powi (k - 1) \<le> t"
          using le unfolding half m by simp
        show "t < (of_int (2 * m) + 1 / 2) * 2 powi (k - 1)"
          using t4 unfolding half by (simp add: algebra_simps)
      qed
      then show ?thesis
        unfolding half m by simp
    qed
  qed
qed

lemma round_to_error_relative:
  "\<bar>round_to p emin x - x\<bar> \<le> 2 powi (- int p) * \<bar>x\<bar> + 2 powi (emin - int p)"
proof (cases "x = 0")
  case True
  then show ?thesis
    using powi_pos [of "emin - int p"] by simp
next
  case False
  have e: "\<bar>round_to p emin x - x\<bar> \<le> 2 powi (quantum p emin x - 1)"
    by (rule round_to_error)
  have x: "2 powi expo \<bar>x\<bar> \<le> \<bar>x\<bar>"
    using expo_bounds [of "\<bar>x\<bar>"] False by simp
  show ?thesis
  proof (cases "emin \<le> expo \<bar>x\<bar>")
    case True
    then have "quantum p emin x - 1 = expo \<bar>x\<bar> - int p"
      by (simp add: quantum_def)
    then have "(2::real) powi (quantum p emin x - 1) = 2 powi (expo \<bar>x\<bar> - int p)"
      by (rule arg_cong)
    also have "\<dots> = 2 powi (- int p) * 2 powi expo \<bar>x\<bar>"
      by (simp add: power_int_diff power_int_minus field_simps)
    also have "\<dots> \<le> 2 powi (- int p) * \<bar>x\<bar>"
      using x powi_pos [of "- int p"] by (simp only: mult_left_mono less_imp_le)
    finally show ?thesis
      using e powi_pos [of "emin - int p"] by linarith
  next
    case False
    then have "quantum p emin x - 1 = emin - int p"
      by (simp add: quantum_def)
    then have "\<bar>round_to p emin x - x\<bar> \<le> 2 powi (emin - int p)"
      using e by simp
    moreover have "0 \<le> 2 powi (- int p) * \<bar>x\<bar>"
      using powi_pos [of "- int p"] by simp
    ultimately show ?thesis
      by linarith
  qed
qed

lemma round_to_frac:
  assumes rep: "round_to p emin x = x" and "0 \<le> x" and p: "0 < p"
  shows "round_to p emin (x - of_int \<lfloor>x\<rfloor>) = x - of_int \<lfloor>x\<rfloor>"
proof -
  define k where "k = quantum p emin x"
  obtain m where m: "x = of_int m * 2 powi k" "\<bar>m\<bar> \<le> 2 ^ p"
    using round_to_grid [OF rep p] unfolding k_def by blast
  have kmin: "emin - (int p - 1) \<le> k"
    unfolding k_def by (rule quantum_ge)
  have m0: "0 \<le> m"
  proof -
    have "0 \<le> of_int m * (2::real) powi k"
      using assms(2) m(1) by simp
    then have "0 \<le> (of_int m :: real)"
      using powi_pos [of k] by (simp add: zero_le_mult_iff)
    then show ?thesis
      by simp
  qed
  show ?thesis
  proof (cases "0 \<le> k")
    case True
    then obtain d where "k = int d"
      using nonneg_int_cases by blast
    then have "x = of_int (m * 2 ^ d)"
      using m(1) by simp
    then have "x - of_int \<lfloor>x\<rfloor> = 0"
      by (simp only: floor_of_int)
    then show ?thesis
      by simp
  next
    case False
    define d where "d = nat (- k)"
    have d: "k = - int d"
      using False by (simp add: d_def)
    have x: "x = of_int m / of_int (2 ^ d)"
      using m(1) by (simp add: d power_int_minus field_simps)
    then have "\<lfloor>x\<rfloor> = m div 2 ^ d"
      by (simp only: floor_divide_of_int_eq)
    then have "x - of_int \<lfloor>x\<rfloor> = (of_int m - of_int (m div 2 ^ d) * of_int (2 ^ d)) / of_int (2 ^ d)"
      by (simp add: x field_simps)
    also have "of_int m - of_int (m div 2 ^ d) * of_int (2 ^ d) = (of_int (m mod 2 ^ d) :: real)"
      by (simp only: of_int_mult [symmetric] of_int_diff [symmetric] minus_div_mult_eq_mod)
    finally have f: "x - of_int \<lfloor>x\<rfloor> = of_int (m mod 2 ^ d) * 2 powi k"
      by (simp add: d power_int_minus field_simps)
    have "0 \<le> m mod 2 ^ d" "m mod 2 ^ d \<le> m"
      using m0 by (simp_all add: zmod_le_nonneg_dividend)
    then have "\<bar>m mod 2 ^ d\<bar> \<le> 2 ^ p"
      using m(2) by linarith
    then show ?thesis
      using f kmin p by (intro round_to_fix [of _ "m mod 2 ^ d" k])
  qed
qed

lemma rd64_mono: "x \<le> y \<Longrightarrow> rd64 x \<le> rd64 y"
  by (simp add: rd64_def round_to_mono)

lemma fround_mono: "x \<le> y \<Longrightarrow> fround x \<le> fround y"
  by (simp add: fround_def round_to_mono)

lemma rd64_minus: "rd64 (- x) = - rd64 x"
  by (simp add: rd64_def round_to_minus)

lemma fround_minus: "fround (- x) = - fround x"
  by (simp add: fround_def round_to_minus)

lemma rd64_0 [simp]: "rd64 0 = 0"
  by (simp add: rd64_def)

lemma fround_0 [simp]: "fround 0 = 0"
  by (simp add: fround_def)

lemma rd64_int: "\<bar>n\<bar> \<le> 2 ^ 53 \<Longrightarrow> rd64 (of_int n) = of_int n"
  unfolding rd64_def by (rule round_to_fix [of _ n 0]) simp_all

lemma rd64_1 [simp]: "rd64 1 = 1"
  using rd64_int [of 1] by simp

lemma rd64_fround: "fround x = x \<Longrightarrow> rd64 x = x"
  unfolding rd64_def fround_def by (rule round_to_widen [of 24 "- 126"]) simp_all

lemma rd64_idem [simp]: "rd64 (rd64 x) = rd64 x"
  by (simp add: rd64_def round_to_idem)

lemma fround_idem [simp]: "fround (fround x) = fround x"
  by (simp add: fround_def round_to_idem)

lemma rd64_nonneg: "0 \<le> x \<Longrightarrow> 0 \<le> rd64 x"
  by (simp add: rd64_def round_to_nonneg)

lemma rd64_error: "\<bar>rd64 x - x\<bar> \<le> 2 powi (- 53) * \<bar>x\<bar> + 2 powi (- 1075)"
  using round_to_error_relative [of 53 "- 1022" x] by (simp add: rd64_def)

lemma rd64_frac:
  assumes "0 \<le> x"
  shows "rd64 (rd64 x - of_int \<lfloor>rd64 x\<rfloor>) = rd64 x - of_int \<lfloor>rd64 x\<rfloor>"
  using assms unfolding rd64_def by (intro round_to_frac round_to_idem round_to_nonneg) simp_all

lemma powi_double: "2 * (2::real) powi k = 2 powi (k + 1)"
  by (simp add: power_int_add)

lemma powi_add2: "(2::real) powi a * 2 powi b = 2 powi (a + b)"
  by (simp add: power_int_add)

lemma rd64_complement:
  assumes "0 \<le> w" "w < 1"
  shows "0 \<le> rd64 (1 - w)" "rd64 (1 - w) \<le> 1" "\<bar>rd64 (1 - w) + w - 1\<bar> \<le> 2 powi (- 53) + 2 powi (- 1075)"
proof -
  define u :: real where "u = 2 powi (- 53)"
  define n :: real where "n = 2 powi (- 1075)"
  show "0 \<le> rd64 (1 - w)"
    using assms by (intro rd64_nonneg) simp
  have "rd64 (1 - w) \<le> rd64 1"
    using assms by (intro rd64_mono) simp
  then show "rd64 (1 - w) \<le> 1"
    by simp
  have u: "0 \<le> u"
    unfolding u_def by (rule less_imp_le) (rule powi_pos)
  have "\<bar>rd64 (1 - w) - (1 - w)\<bar> \<le> u * \<bar>1 - w\<bar> + n"
    unfolding u_def n_def by (rule rd64_error)
  moreover have "u * \<bar>1 - w\<bar> \<le> u * 1"
    using assms u by (intro mult_left_mono) simp_all
  ultimately have "\<bar>rd64 (1 - w) + w - 1\<bar> \<le> u + n"
    by (simp add: algebra_simps)
  then show "\<bar>rd64 (1 - w) + w - 1\<bar> \<le> 2 powi (- 53) + 2 powi (- 1075)"
    unfolding u_def n_def .
qed

lemma rd64_scaled_error:
  assumes "0 \<le> c" "c \<le> 1"
  shows "\<bar>rd64 (h * c) - h * c\<bar> \<le> 2 powi (- 53) * \<bar>h\<bar> + 2 powi (- 1075)"
proof -
  define u :: real where "u = 2 powi (- 53)"
  define n :: real where "n = 2 powi (- 1075)"
  have u: "0 \<le> u"
    unfolding u_def by (rule less_imp_le) (rule powi_pos)
  have "\<bar>rd64 (h * c) - h * c\<bar> \<le> u * \<bar>h * c\<bar> + n"
    unfolding u_def n_def by (rule rd64_error)
  moreover have "\<bar>h * c\<bar> \<le> \<bar>h\<bar> * 1"
    unfolding abs_mult using assms by (intro mult_left_mono) simp_all
  then have "u * \<bar>h * c\<bar> \<le> u * \<bar>h\<bar>"
    using u by (intro mult_left_mono) simp_all
  ultimately have "\<bar>rd64 (h * c) - h * c\<bar> \<le> u * \<bar>h\<bar> + n"
    by linarith
  then show ?thesis
    unfolding u_def n_def .
qed

lemma blend_constant_upper:
  assumes h: "fround h = h" and w: "0 \<le> w" "w < 1"
  shows "fround (rd64 (rd64 (h * rd64 (1 - w)) + rd64 (h * w))) \<le> h"
proof (cases "h = 0")
  case True
  then show ?thesis
    by simp
next
  case False
  define c where "c = rd64 (1 - w)"
  define u :: real where "u = 2 powi (- 53)"
  define n :: real where "n = 2 powi (- 1075)"
  define k where "k = quantum 24 (- 126) h"
  define G :: real where "G = 2 powi (k - 4)"
  define S where "S = rd64 (h * c) + rd64 (h * w)"
  have c: "0 \<le> c" "c \<le> 1" "\<bar>c + w - 1\<bar> \<le> u + n"
    unfolding c_def u_def n_def using w by (rule rd64_complement)+
  have un: "0 < u" "0 < n" "n \<le> u"
    unfolding u_def n_def by (rule powi_pos, rule powi_pos, rule powi_mono) simp
  have A: "\<bar>rd64 (h * c) - h * c\<bar> \<le> u * \<bar>h\<bar> + n"
    unfolding u_def n_def using c(1,2) by (rule rd64_scaled_error)
  have B: "\<bar>rd64 (h * w) - h * w\<bar> \<le> u * \<bar>h\<bar> + n"
    unfolding u_def n_def using w by (intro rd64_scaled_error) simp_all
  have "\<bar>h * c + h * w - h\<bar> = \<bar>h\<bar> * \<bar>c + w - 1\<bar>"
    by (simp add: abs_mult [symmetric] algebra_simps)
  also have "\<dots> \<le> \<bar>h\<bar> * (u + n)"
    using c(3) by (intro mult_left_mono) simp_all
  also have "\<dots> \<le> \<bar>h\<bar> * (u + u)"
    using un by (intro mult_left_mono) simp_all
  finally have C: "\<bar>h * c + h * w - h\<bar> \<le> 2 * (u * \<bar>h\<bar>)"
    by (simp add: algebra_simps)
  have S: "S \<le> h + 4 * (u * \<bar>h\<bar>) + 2 * n"
    unfolding S_def using A B C by linarith
  have four: "(4::real) = 2 powi 2"
    by simp
  have e: "2 + - 53 + (k + 24) = k - 27"
    by simp
  have "\<bar>h\<bar> < 2 powi (k + 24)"
    using quantum_bound [of h 24 "- 126"] by (simp add: k_def)
  then have "4 * u * \<bar>h\<bar> \<le> 4 * u * 2 powi (k + 24)"
    using un by (intro mult_left_mono) simp_all
  also have "\<dots> = 2 powi 2 * 2 powi (- 53) * 2 powi (k + 24)"
    unfolding u_def by (simp only: four)
  also have "\<dots> = 2 powi (2 + - 53 + (k + 24))"
    by (simp only: powi_add2)
  also have "\<dots> = 2 powi (k - 27)"
    by (simp only: e)
  also have "\<dots> \<le> G"
    unfolding G_def by (intro powi_mono) simp
  finally have 1: "4 * (u * \<bar>h\<bar>) \<le> G"
    by simp
  have kmin: "- 149 \<le> k"
    using quantum_ge [of "- 126" 24 h] by (simp add: k_def)
  have "2 * n = 2 powi (- 1075 + 1)"
    unfolding n_def by (rule powi_double)
  also have "\<dots> \<le> G"
    unfolding G_def using kmin by (intro powi_mono) simp
  finally have 2: "2 * n \<le> G" .
  have G2: "2 * G = 2 powi (k - 3)"
    by (simp add: G_def power_int_diff)
  obtain m where m: "h = of_int m * 2 powi k" "\<bar>m\<bar> \<le> 2 ^ 24"
    using round_to_grid [of 24 "- 126" h] h unfolding fround_def k_def by auto
  define D where "D = h + 2 powi (k - 3)"
  have "D = of_int (8 * m + 1) * 2 powi (k - 3)"
    by (simp add: D_def m(1) power_int_diff algebra_simps)
  moreover have "\<bar>8 * m + 1\<bar> \<le> 2 ^ 53"
    using m(2) by simp
  ultimately have D: "rd64 D = D"
    unfolding rd64_def using kmin by (intro round_to_fix [of D "8 * m + 1" "k - 3"]) simp_all
  have "S \<le> D"
    using S 1 2 G2 by (simp add: D_def)
  then have "rd64 S \<le> D"
    using rd64_mono [of S D] D by simp
  moreover have "D < h + 2 powi (k - 2)"
    unfolding D_def by (simp add: powi_less_iff)
  ultimately have lt: "rd64 S < h + 2 powi (quantum 24 (- 126) h - 2)"
    by (simp add: k_def)
  have "fround (rd64 S) \<le> h"
  proof (cases "h \<le> rd64 S")
    case True
    have "round_to 24 (- 126) (rd64 S) = h"
    proof (rule round_to_near)
      show "round_to 24 (- 126) h = h"
        using h by (simp only: fround_def)
      show "h \<noteq> 0"
        by (fact False)
      show "h \<le> rd64 S"
        by (fact True)
      show "rd64 S < h + 2 powi (quantum 24 (- 126) h - 2)"
        by (fact lt)
      show "2 \<le> (24::nat)"
        by simp
    qed
    then show ?thesis
      by (simp add: fround_def)
  next
    case False
    then have "fround (rd64 S) \<le> fround h"
      by (intro fround_mono) simp
    then show ?thesis
      using h by simp
  qed
  then show ?thesis
    by (simp add: S_def c_def)
qed

lemma blend_upper:
  assumes a: "fround a = a" and b: "fround b = b" and w: "0 \<le> w" "w < 1"
  shows "fround (rd64 (rd64 (a * rd64 (1 - w)) + rd64 (b * w))) \<le> max a b"
proof -
  define h where "h = max a b"
  have h: "fround h = h"
    using a b by (simp add: h_def max_def)
  have c: "0 \<le> rd64 (1 - w)"
    using w by (rule rd64_complement)
  have "a * rd64 (1 - w) \<le> h * rd64 (1 - w)"
    using c by (intro mult_right_mono) (simp_all add: h_def)
  then have 1: "rd64 (a * rd64 (1 - w)) \<le> rd64 (h * rd64 (1 - w))"
    by (rule rd64_mono)
  have "b * w \<le> h * w"
    using w by (intro mult_right_mono) (simp_all add: h_def)
  then have 2: "rd64 (b * w) \<le> rd64 (h * w)"
    by (rule rd64_mono)
  have "rd64 (rd64 (a * rd64 (1 - w)) + rd64 (b * w)) \<le> rd64 (rd64 (h * rd64 (1 - w)) + rd64 (h * w))"
    using 1 2 by (intro rd64_mono) simp
  then have "fround (rd64 (rd64 (a * rd64 (1 - w)) + rd64 (b * w)))
      \<le> fround (rd64 (rd64 (h * rd64 (1 - w)) + rd64 (h * w)))"
    by (rule fround_mono)
  also have "\<dots> \<le> h"
    using h w by (rule blend_constant_upper)
  finally show ?thesis
    by (simp add: h_def)
qed

lemma blend_lower:
  assumes a: "fround a = a" and b: "fround b = b" and w: "0 \<le> w" "w < 1"
  shows "min a b \<le> fround (rd64 (rd64 (a * rd64 (1 - w)) + rd64 (b * w)))"
proof -
  have "fround (rd64 (rd64 (- a * rd64 (1 - w)) + rd64 (- b * w))) \<le> max (- a) (- b)"
    using a b w by (intro blend_upper) (simp_all add: fround_minus)
  moreover have "rd64 (rd64 (- a * rd64 (1 - w)) + rd64 (- b * w))
      = - rd64 (rd64 (a * rd64 (1 - w)) + rd64 (b * w))"
    using rd64_minus [of "a * rd64 (1 - w)"] rd64_minus [of "b * w"]
      rd64_minus [of "rd64 (a * rd64 (1 - w)) + rd64 (b * w)"] by simp
  ultimately have "- fround (rd64 (rd64 (a * rd64 (1 - w)) + rd64 (b * w))) \<le> max (- a) (- b)"
    by (simp add: fround_minus)
  moreover have "max (- a) (- b) = - min a b"
    by (auto simp: max_def min_def)
  ultimately show ?thesis
    by linarith
qed

section \<open>Properties of the resampler\<close>

lemma downsample_loop_length:
  "length (downsample_loop input ratio n i result) = length result"
proof (induction input ratio n i result rule: downsample_loop.induct)
  case (1 input ratio n i result)
  show ?case
  proof (cases "i < n")
    case True
    then have "length (downsample_loop input ratio n i result) =
        length (ta_set result i (fround (interpolate input ratio i)))"
      using "1.IH" by (subst downsample_loop.simps) simp
    then show ?thesis by (simp add: ta_set_def)
  next
    case False
    then show ?thesis by (subst downsample_loop.simps) simp
  qed
qed

lemma downsample_loop_nth:
  "length result = n \<Longrightarrow> k < n \<Longrightarrow>
   downsample_loop input ratio n i result ! k =
     (if i \<le> k then fround (interpolate input ratio k) else result ! k)"
proof (induction input ratio n i result rule: downsample_loop.induct)
  case (1 input ratio n i result)
  show ?case
  proof (cases "i < n")
    case True
    let ?r = "ta_set result i (fround (interpolate input ratio i))"
    have len: "length ?r = n"
      using "1.prems" by (simp add: ta_set_def)
    have "downsample_loop input ratio n i result ! k = downsample_loop input ratio n (i + 1) ?r ! k"
      using True by (subst downsample_loop.simps) simp
    also have "\<dots> = (if i + 1 \<le> k then fround (interpolate input ratio k) else ?r ! k)"
      using True len "1.prems" by (intro "1.IH") auto
    finally show ?thesis
      using True "1.prems" by (cases "i = k") (auto simp: ta_set_def)
  next
    case False
    then show ?thesis
      using "1.prems" by (subst downsample_loop.simps) simp
  qed
qed

lemma downsample_loop_map:
  "downsample_loop input ratio n 0 (replicate n 0) =
     map (\<lambda>i. fround (interpolate input ratio i)) [0 ..< n]"
  by (rule nth_equalityI) (simp_all add: downsample_loop_length downsample_loop_nth)

lemma rd64_max_double: "rd64 max_double = max_double"
  unfolding rd64_def max_double_def
  by (rule round_to_fix [of _ "2 ^ 53 - 1" 971]) simp_all

lemma rd64_min_double: "rd64 (2 powi (- 1074)) = 2 powi (- 1074)"
  unfolding rd64_def
  by (rule round_to_fix [of _ 1 "- 1074"]) simp_all

lemma f64_cases:
  "f64 x = Num (rd64 x) \<and> \<bar>rd64 x\<bar> \<le> max_double \<or>
   f64 x = PosInfinity \<and> max_double < rd64 x \<or>
   f64 x = NegInfinity \<and> rd64 x < - max_double"
  by (auto simp: f64_def)

lemma f64_finite: "\<bar>x\<bar> \<le> max_double \<Longrightarrow> f64 x = Num (rd64 x)"
proof -
  assume "\<bar>x\<bar> \<le> max_double"
  then have "x \<le> max_double" "- max_double \<le> x"
    by simp_all
  then have "rd64 x \<le> rd64 max_double" "rd64 (- max_double) \<le> rd64 x"
    by (simp_all only: rd64_mono)
  then show ?thesis
    by (simp add: f64_def rd64_minus rd64_max_double)
qed

lemma rd64_pos_imp: "0 < rd64 x \<Longrightarrow> 0 < x"
proof (rule ccontr)
  assume "0 < rd64 x" "\<not> 0 < x"
  then have "rd64 x \<le> rd64 0"
    by (intro rd64_mono) simp
  then show False
    using \<open>0 < rd64 x\<close> by simp
qed

lemma f64_NumD: "f64 x = Num y \<Longrightarrow> y = rd64 x \<and> \<bar>y\<bar> \<le> max_double"
  by (auto simp: f64_def split: if_splits)

lemma f64_div_NumD: "f64_div x y = Num q \<Longrightarrow> y \<noteq> 0 \<and> q = rd64 (x / y)"
  by (auto simp: f64_div_def dest: f64_NumD split: if_splits)

lemma js_ceil_NumD: "js_ceil v = Num n \<Longrightarrow> \<exists>q. v = Num q \<and> n = of_int \<lceil>q\<rceil>"
  by (cases v) simp_all

lemma max_double_bound: "max_double \<le> 2 powi 1024"
proof -
  have "max_double \<le> 2 ^ 53 * 2 ^ 971"
    unfolding max_double_def by (rule mult_right_mono) simp_all
  also have "\<dots> = 2 ^ (53 + 971)"
    by (rule power_add [symmetric])
  also have "\<dots> = 2 powi 1024"
    by simp
  finally show ?thesis .
qed

lemma max_double_array: "2 ^ 53 - 1 \<le> max_double"
proof -
  have "(2 ^ 53 - 1) * (1::real) \<le> (2 ^ 53 - 1) * 2 ^ 971"
    by (rule mult_left_mono) simp_all
  then show ?thesis
    by (simp only: max_double_def mult_1_right)
qed

lemma max_double_pos: "0 < max_double"
proof -
  have "(0::real) < 2 ^ 53 - 1"
    by simp
  then show ?thesis
    using max_double_array by linarith
qed

lemma array_length_gt: "((2 ^ 53 - 1 :: real) < of_int c) = (2 ^ 53 - 1 < c)"
proof -
  have "(2 ^ 53 - 1 :: real) = of_int (2 ^ 53 - 1)"
    by simp
  then show ?thesis
    by (simp only: of_int_less_iff)
qed

text \<open>The loop runs only for a positive ratio, and it fills the whole result.\<close>

lemma downsampleTo16k_loop:
  assumes "inputSampleRate \<noteq> 16000" "downsampleTo16k input inputSampleRate = Inr out" "out \<noteq> []"
  shows "0 < rd64 (inputSampleRate / 16000) \<and>
         out = map (\<lambda>i. fround (interpolate input (rd64 (inputSampleRate / 16000)) i)) [0 ..< length out]"
proof -
  let ?n = "real (length input)"
  have ne: "input \<noteq> []"
    using assms by (auto simp: downsampleTo16k_def)
  obtain ratio where r: "f64 (inputSampleRate / 16000) = Num ratio"
    using assms ne by (cases "f64 (inputSampleRate / 16000)") (auto simp: downsampleTo16k_def)
  define Q where "Q = (if ratio = 0 \<and> inputSampleRate < 0 then NegInfinity else f64_div ?n ratio)"
  have res: "(case js_ceil Q of
               Num newLength \<Rightarrow>
                 if newLength \<le> 0 then Inr []
                 else if 2 ^ 53 - 1 < newLength then Inl RangeError
                 else Inr (downsample_loop input ratio (nat \<lfloor>newLength\<rfloor>) 0
                             (replicate (nat \<lfloor>newLength\<rfloor>) 0))
             | PosInfinity \<Rightarrow> Inl RangeError
             | NegInfinity \<Rightarrow> Inr []
             | NaN \<Rightarrow> Inr []) = Inr out"
    using assms(1,2) ne r by (simp add: downsampleTo16k_def Q_def)
  then obtain nl where nl: "js_ceil Q = Num nl"
    using assms(3) by (cases "js_ceil Q") auto
  then have nl0: "0 < nl" and out: "out = downsample_loop input ratio (nat \<lfloor>nl\<rfloor>) 0 (replicate (nat \<lfloor>nl\<rfloor>) 0)"
    using res assms(3) by (auto split: if_splits)
  obtain q where q: "Q = Num q" "nl = of_int \<lceil>q\<rceil>"
    using js_ceil_NumD [OF nl] by blast
  then have "f64_div ?n ratio = Num q"
    by (auto simp: Q_def split: if_splits)
  then have r0: "ratio \<noteq> 0" and qq: "q = rd64 (?n / ratio)"
    using f64_div_NumD by blast+
  have "0 < \<lceil>q\<rceil>"
    using nl0 q(2) by simp
  then have "0 < q"
    by linarith
  then have "0 < ?n / ratio"
    unfolding qq by (rule rd64_pos_imp)
  then have "0 < ratio"
    using ne by (simp add: zero_less_divide_iff)
  moreover have "ratio = rd64 (inputSampleRate / 16000)"
    using f64_NumD [OF r] by simp
  moreover have "out = map (\<lambda>i. fround (interpolate input ratio i)) [0 ..< length out]"
    using out by (simp add: downsample_loop_map downsample_loop_length)
  ultimately show ?thesis
    by simp
qed

lemma quotient_positive:
  assumes "0 < r" "r \<le> max_double" "1 \<le> n"
  shows "0 < rd64 (n / r)"
proof -
  define B :: real where "B = 2 powi 1024"
  have "r \<le> B"
    unfolding B_def using assms(2) max_double_bound by linarith
  then have "1 / B \<le> 1 / r"
    using assms(1) by (intro frac_le) simp_all
  also have "\<dots> \<le> n / r"
    using assms(1,3) by (intro divide_right_mono) simp_all
  finally have "1 / B \<le> n / r" .
  moreover have "2 powi (- 1024) = 1 / B"
    unfolding B_def by (simp only: power_int_minus inverse_eq_divide)
  moreover have "(2::real) powi (- 1074) \<le> 2 powi (- 1024)"
    by (rule powi_mono) simp
  ultimately have "2 powi (- 1074) \<le> n / r"
    by linarith
  then have "rd64 (2 powi (- 1074)) \<le> rd64 (n / r)"
    by (rule rd64_mono)
  then have "2 powi (- 1074) \<le> rd64 (n / r)"
    by (simp only: rd64_min_double)
  then show ?thesis
    by (rule less_le_trans [OF powi_pos])
qed

lemma downsampleTo16k_positive:
  assumes "0 < inputSampleRate" "inputSampleRate \<le> max_double" "inputSampleRate \<noteq> 16000" "input \<noteq> []"
  shows "downsampleTo16k input inputSampleRate =
     (if rd64 (inputSampleRate / 16000) = 0 \<or>
         2 ^ 53 - 1 < \<lceil>rd64 (real (length input) / rd64 (inputSampleRate / 16000))\<rceil>
      then Inl RangeError
      else Inr (map (\<lambda>i. fround (interpolate input (rd64 (inputSampleRate / 16000)) i))
                  [0 ..< nat \<lceil>rd64 (real (length input) / rd64 (inputSampleRate / 16000))\<rceil>]))"
    and "0 < rd64 (inputSampleRate / 16000) \<Longrightarrow>
           0 < \<lceil>rd64 (real (length input) / rd64 (inputSampleRate / 16000))\<rceil>"
proof -
  define r where "r = rd64 (inputSampleRate / 16000)"
  define n where "n = real (length input)"
  define q where "q = rd64 (n / r)"
  have "inputSampleRate / 16000 \<le> inputSampleRate"
    using assms(1) by simp
  then have "\<bar>inputSampleRate / 16000\<bar> \<le> max_double"
    using assms(1,2) by simp
  then have r: "f64 (inputSampleRate / 16000) = Num r"
    unfolding r_def by (rule f64_finite)
  then have rle: "r \<le> max_double"
    using f64_NumD by fastforce
  have r0: "0 \<le> r"
    unfolding r_def using assms(1) by (intro rd64_nonneg) simp
  have n: "1 \<le> n"
    unfolding n_def using assms(4) by (cases input) simp_all
  have pos: "0 < \<lceil>q\<rceil>" if "0 < r"
  proof -
    have "0 < q"
      unfolding q_def using that rle n by (rule quotient_positive)
    then show ?thesis
      by linarith
  qed
  then show "0 < rd64 (inputSampleRate / 16000) \<Longrightarrow>
      0 < \<lceil>rd64 (real (length input) / rd64 (inputSampleRate / 16000))\<rceil>"
    unfolding q_def n_def r_def .
  have "downsampleTo16k input inputSampleRate =
     (if r = 0 \<or> 2 ^ 53 - 1 < \<lceil>q\<rceil> then Inl RangeError
      else Inr (map (\<lambda>i. fround (interpolate input r i)) [0 ..< nat \<lceil>q\<rceil>]))"
  proof (cases "r = 0")
    case True
    then show ?thesis
      using assms r n by (simp add: downsampleTo16k_def f64_div_def n_def)
  next
    case False
    then have rp: "0 < r"
      using r0 by simp
    have c: "0 < \<lceil>q\<rceil>"
      by (rule pos [OF rp])
    have "\<not> q < - max_double"
      using c max_double_pos by linarith
    then consider "f64 (n / r) = Num q" | "f64 (n / r) = PosInfinity" "max_double < q"
      using f64_cases [of "n / r"] unfolding q_def by blast
    then show ?thesis
    proof cases
      case 1
      have "\<not> (of_int \<lceil>q\<rceil> :: real) \<le> 0"
        using c by simp
      then show ?thesis
        using assms(1,3,4) r False 1
        by (simp add: downsampleTo16k_def f64_div_def downsample_loop_map n_def array_length_gt)
    next
      case 2
      have "of_int (2 ^ 53 - 1) = (2 ^ 53 - 1 :: real)"
        by simp
      then have "of_int (2 ^ 53 - 1) < q"
        using 2(2) max_double_array by linarith
      then have "2 ^ 53 - 1 < \<lceil>q\<rceil>"
        by (simp only: less_ceiling_iff)
      then show ?thesis
        using assms(1,3,4) r False 2 by (simp add: downsampleTo16k_def f64_div_def n_def)
    qed
  qed
  then show "downsampleTo16k input inputSampleRate =
     (if rd64 (inputSampleRate / 16000) = 0 \<or>
         2 ^ 53 - 1 < \<lceil>rd64 (real (length input) / rd64 (inputSampleRate / 16000))\<rceil>
      then Inl RangeError
      else Inr (map (\<lambda>i. fround (interpolate input (rd64 (inputSampleRate / 16000)) i))
                  [0 ..< nat \<lceil>rd64 (real (length input) / rd64 (inputSampleRate / 16000))\<rceil>]))"
    unfolding q_def n_def r_def .
qed

lemma or_else_ta_get:
  "0 \<le> j \<Longrightarrow> or_else (ta_get input j) b =
     (if nat j < length input \<and> input ! nat j \<noteq> 0 then input ! nat j else b)"
  by (auto simp: or_else_def ta_get_def)

lemma interpolate_value:
  assumes "0 \<le> ratio"
  shows "\<exists>index w s1 s2.
           index = rd64 (real i * ratio) \<and> 0 \<le> index \<and>
           w = index - of_int \<lfloor>index\<rfloor> \<and> 0 \<le> w \<and> w < 1 \<and>
           s1 = (if nat \<lfloor>index\<rfloor> < length input then input ! nat \<lfloor>index\<rfloor> else 0) \<and>
           s2 = (if nat \<lceil>index\<rceil> < length input \<and> input ! nat \<lceil>index\<rceil> \<noteq> 0
                 then input ! nat \<lceil>index\<rceil> else s1) \<and>
           interpolate input ratio i = rd64 (rd64 (s1 * rd64 (1 - w)) + rd64 (s2 * w))"
proof -
  define index where "index = rd64 (real i * ratio)"
  define w where "w = index - of_int \<lfloor>index\<rfloor>"
  define s1 where "s1 = (if nat \<lfloor>index\<rfloor> < length input then input ! nat \<lfloor>index\<rfloor> else 0)"
  define s2 where "s2 = (if nat \<lceil>index\<rceil> < length input \<and> input ! nat \<lceil>index\<rceil> \<noteq> 0
                 then input ! nat \<lceil>index\<rceil> else s1)"
  have i0: "0 \<le> index"
    unfolding index_def using assms by (intro rd64_nonneg) simp
  then have f0: "0 \<le> \<lfloor>index\<rfloor>" and c0: "0 \<le> \<lceil>index\<rceil>"
    by linarith+
  have w: "0 \<le> w" "w < 1"
    unfolding w_def by linarith+
  have rw: "rd64 (index - of_int \<lfloor>index\<rfloor>) = w"
    unfolding w_def index_def using assms by (intro rd64_frac) simp
  have a: "or_else (ta_get input \<lfloor>index\<rfloor>) 0 = s1"
    unfolding s1_def by (simp add: or_else_ta_get [OF f0])
  have b: "or_else (ta_get input \<lceil>index\<rceil>) s1 = s2"
    unfolding s2_def by (simp add: or_else_ta_get [OF c0])
  have "interpolate input ratio i = rd64 (rd64 (s1 * rd64 (1 - w)) + rd64 (s2 * w))"
    unfolding interpolate_def Let_def index_def [symmetric] rw a b ..
  then show ?thesis
    using i0 w index_def w_def s1_def s2_def by blast
qed

lemma is_float32_0 [simp]: "is_float32 0"
  by (simp add: is_float32_def max_float32_def)

lemma round_even_closest: "\<bar>y - of_int m\<bar> < 1 / 2 \<Longrightarrow> round_even y = m"
proof -
  assume a: "\<bar>y - of_int m\<bar> < 1 / 2"
  show ?thesis
  proof (cases "of_int m \<le> y")
    case True
    then show ?thesis
      using a by (intro round_even_near) simp_all
  next
    case False
    then have f: "\<lfloor>y\<rfloor> = m - 1"
      using a by (intro floor_unique) simp_all
    have "1 / 2 < y - of_int (m - 1)"
      using a False by simp
    then show ?thesis
      unfolding round_even_def Let_def f by simp
  qed
qed

lemma round_to_eval:
  assumes "2 powi e \<le> \<bar>x\<bar>" "\<bar>x\<bar> < 2 powi (e + 1)" "emin \<le> e"
    and "\<bar>x / 2 powi (e - (int p - 1)) - of_int m\<bar> < 1 / 2"
  shows "round_to p emin x = of_int m * 2 powi (e - (int p - 1))"
proof -
  have "0 < \<bar>x\<bar>"
    using assms(1) powi_pos [of e] by linarith
  then have "expo \<bar>x\<bar> = e"
    using assms(1,2) by (intro expo_unique)
  then have q: "quantum p emin x = e - (int p - 1)"
    using assms(3) by (simp add: quantum_def)
  have "round_even (x / 2 powi (e - (int p - 1))) = m"
    using assms(4) by (rule round_even_closest)
  then show ?thesis
    by (simp add: round_to_quantum q)
qed

lemma rd64_eval:
  assumes "2 powi e \<le> \<bar>x\<bar>" "\<bar>x\<bar> < 2 powi (e + 1)" "- 1022 \<le> e"
    and "\<bar>x / 2 powi (e - 52) - of_int m\<bar> < 1 / 2"
  shows "rd64 x = of_int m * 2 powi (e - 52)"
  unfolding rd64_def using round_to_eval [of e x "- 1022" 53 m] assms by simp

lemma fround_eval:
  assumes "2 powi e \<le> \<bar>x\<bar>" "\<bar>x\<bar> < 2 powi (e + 1)" "- 126 \<le> e"
    and "\<bar>x / 2 powi (e - 23) - of_int m\<bar> < 1 / 2"
  shows "fround x = of_int m * 2 powi (e - 23)"
  unfolding fround_def using round_to_eval [of e x "- 126" 24 m] assms by simp

lemma ratio_22400: "rd64 (22400 / 16000) = 3152519739159347 / 2251799813685248"
  using rd64_eval [of 0 "22400 / 16000" 6305039478318694] by simp

lemma quotient_21_22400:
  "rd64 (21 / (3152519739159347 / 2251799813685248)) = 8444249301319681 / 562949953421312"
  using rd64_eval [of 3 "21 / (3152519739159347 / 2251799813685248)" 8444249301319681] by simp

lemma quotient_3_22400:
  "rd64 (3 / (3152519739159347 / 2251799813685248)) = 4825285315039817 / 2251799813685248"
  using rd64_eval [of 1 "3 / (3152519739159347 / 2251799813685248)" 4825285315039817] by simp

lemma downsampleTo16k_negative:
  assumes "inputSampleRate < 0"
  shows "downsampleTo16k input inputSampleRate = Inr []"
proof (cases "input = []")
  case True
  then show ?thesis
    using assms by (simp add: downsampleTo16k_def)
next
  case False
  let ?n = "real (length input)"
  have rate: "inputSampleRate \<noteq> 16000"
    using assms by simp
  show ?thesis
  proof (cases "f64 (inputSampleRate / 16000)")
    case (Num ratio)
    then have ratio: "ratio = rd64 (inputSampleRate / 16000)"
      using f64_NumD by blast
    have "rd64 (inputSampleRate / 16000) \<le> rd64 0"
      using assms by (intro rd64_mono) simp
    then have r: "ratio \<le> 0"
      using ratio by simp
    show ?thesis
    proof (cases "ratio = 0")
      case True
      then show ?thesis
        using False rate Num assms by (simp add: downsampleTo16k_def)
    next
      case nz: False
      have "?n / ratio \<le> 0"
        using r by (simp add: divide_nonneg_nonpos)
      then have "rd64 (?n / ratio) \<le> rd64 0"
        by (rule rd64_mono)
      then have q: "rd64 (?n / ratio) \<le> 0"
        by simp
      then have c: "(of_int \<lceil>rd64 (?n / ratio)\<rceil> :: real) \<le> 0"
        by (simp add: ceiling_le_iff)
      have "\<not> max_double < rd64 (?n / ratio)"
        using q max_double_pos by linarith
      then have "f64 (?n / ratio) = Num (rd64 (?n / ratio)) \<or> f64 (?n / ratio) = NegInfinity"
        using f64_cases [of "?n / ratio"] by blast
      then show ?thesis
        using False rate Num nz c by (auto simp: downsampleTo16k_def f64_div_def)
    qed
  qed (use False rate in \<open>simp_all add: downsampleTo16k_def\<close>)
qed

lemma downsampleTo16k_zero: "input \<noteq> [] \<Longrightarrow> downsampleTo16k input 0 = Inl RangeError"
  using max_double_pos by (simp add: downsampleTo16k_def f64_def f64_div_def)

lemma rate_48000:
  assumes "length input = 300"
  shows "\<exists>out. downsampleTo16k input 48000 = Inr out \<and> length out = 100"
proof -
  have r: "rd64 3 = 3"
    using rd64_int [of 3] by simp
  have q: "rd64 100 = 100"
    using rd64_int [of 100] by simp
  have "(48000::real) \<le> 2 ^ 53 - 1"
    by simp
  then have "(48000::real) \<le> max_double"
    using max_double_array by linarith
  moreover have "input \<noteq> []"
    using assms by auto
  ultimately show ?thesis
    using downsampleTo16k_positive(1) [of 48000 input] assms by (simp add: r q)
qed

lemma length_21_22400:
  "\<lceil>rd64 (real (length (replicate 21 (1 / 2 :: real))) / rd64 (22400 / 16000))\<rceil> = 16"
proof -
  have l: "real (length (replicate 21 (1 / 2 :: real))) = 21"
    by simp
  have v: "\<lceil>8444249301319681 / 562949953421312 :: real\<rceil> = 16"
    by simp
  show ?thesis
    by (simp only: l ratio_22400 quotient_21_22400 v)
qed

lemma rate_22400:
  "(0::real) < 22400 \<and> (22400::real) \<le> max_double \<and> (22400::real) \<noteq> 16000"
  "\<not> (rd64 (22400 / 16000) = 0 \<or>
      2 ^ 53 - 1 < \<lceil>rd64 (real (length (replicate 21 (1 / 2 :: real))) / rd64 (22400 / 16000))\<rceil>)"
proof -
  have "(22400::real) \<le> 2 ^ 53 - 1"
    by simp
  then have "(22400::real) \<le> max_double"
    using max_double_array by linarith
  then show "(0::real) < 22400 \<and> (22400::real) \<le> max_double \<and> (22400::real) \<noteq> 16000"
    by simp
  have "rd64 (22400 / 16000) \<noteq> 0"
    unfolding ratio_22400 by simp
  then show "\<not> (rd64 (22400 / 16000) = 0 \<or>
      2 ^ 53 - 1 < \<lceil>rd64 (real (length (replicate 21 (1 / 2 :: real))) / rd64 (22400 / 16000))\<rceil>)"
    unfolding length_21_22400 by simp
qed

lemma float32_examples: "is_float32 1" "is_float32 (- 1)" "is_float32 (1 / 2)"
proof -
  have 1: "fround 1 = 1"
    using fround_eval [of 0 1 8388608] by simp
  have 2: "fround (1 / 2) = 1 / 2"
    using fround_eval [of "- 1" "1 / 2" 8388608] by simp
  have m: "(1::real) \<le> max_float32"
    by (simp add: max_float32_def)
  show "is_float32 1" "is_float32 (- 1)" "is_float32 (1 / 2)"
    using 1 2 m by (simp_all add: is_float32_def fround_minus)
qed

lemma blend_example:
  "rd64 (1351079888211149 / 2251799813685248) = 1351079888211149 / 2251799813685248"
  "rd64 (900719925474099 / 4503599627370496) = 900719925474099 / 4503599627370496"
  "rd64 (1801439850948199 / 4503599627370496) = 1801439850948199 / 4503599627370496"
  "fround (1801439850948199 / 4503599627370496) = 13421773 / 33554432"
  using rd64_eval [of "- 1" "1351079888211149 / 2251799813685248" 5404319552844596]
    rd64_eval [of "- 3" "900719925474099 / 4503599627370496" 7205759403792792]
    rd64_eval [of "- 2" "1801439850948199 / 4503599627370496" 7205759403792796]
    fround_eval [of "- 2" "1801439850948199 / 4503599627370496" 13421773]
  by simp_all

lemma rate_22400_three:
  "downsampleTo16k [1, - 1, 1 / 2] 22400 =
     Inr (map (\<lambda>i. fround (interpolate [1, - 1, 1 / 2] (rd64 (22400 / 16000)) i)) [0 ..< 3])"
proof -
  let ?input = "[1, - 1, 1 / 2 :: real]"
  let ?c = "\<lceil>rd64 (real (length ?input) / rd64 (22400 / 16000))\<rceil>"
  have l: "real (length ?input) = 3"
    by simp
  have v: "\<lceil>4825285315039817 / 2251799813685248 :: real\<rceil> = 3"
    by simp
  have c: "?c = 3"
    by (simp only: l ratio_22400 quotient_3_22400 v)
  have r: "rd64 (22400 / 16000) \<noteq> 0"
    unfolding ratio_22400 by simp
  have "downsampleTo16k ?input 22400 =
     (if rd64 (22400 / 16000) = 0 \<or> 2 ^ 53 - 1 < ?c then Inl RangeError
      else Inr (map (\<lambda>i. fround (interpolate ?input (rd64 (22400 / 16000)) i)) [0 ..< nat ?c]))"
    using rate_22400(1) by (intro downsampleTo16k_positive(1)) simp_all
  moreover have "\<not> (rd64 (22400 / 16000) = 0 \<or> 2 ^ 53 - 1 < ?c)"
    unfolding c using r by simp
  ultimately have "downsampleTo16k ?input 22400 =
      Inr (map (\<lambda>i. fround (interpolate ?input (rd64 (22400 / 16000)) i)) [0 ..< nat ?c])"
    by (simp only: if_False)
  then show ?thesis
    unfolding c by simp
qed

lemma rd64_at_most_twice:
  assumes "1 < rd64 x"
  shows "rd64 x \<le> 2 * x"
proof -
  define u :: real where "u = 2 powi (- 53)"
  define n :: real where "n = 2 powi (- 1075)"
  have "\<not> x \<le> 1"
  proof
    assume "x \<le> 1"
    then have "rd64 x \<le> rd64 1"
      by (rule rd64_mono)
    then show False
      using assms by simp
  qed
  then have x: "1 < x"
    by simp
  have "u \<le> 2 powi (- 1)" "n \<le> 2 powi (- 1)"
    unfolding u_def n_def by (rule powi_mono, simp)+
  moreover have "(2::real) powi (- 1) = 1 / 2"
    by simp
  ultimately have un: "u \<le> 1 / 2" "n \<le> 1 / 2" "0 \<le> u"
    using powi_pos [of "- 53"] by (simp_all add: u_def)
  have "\<bar>rd64 x - x\<bar> \<le> u * \<bar>x\<bar> + n"
    unfolding u_def n_def by (rule rd64_error)
  moreover have "u * \<bar>x\<bar> \<le> (1 / 2) * \<bar>x\<bar>"
    using un by (intro mult_right_mono) simp_all
  ultimately show ?thesis
    using x un by linarith
qed

lemma rd64_pow2: "- 1074 \<le> k \<Longrightarrow> rd64 (2 powi k) = 2 powi k"
  unfolding rd64_def by (rule round_to_fix [of _ 1 k]) simp_all

lemma rd64_bounded:
  assumes "\<bar>x\<bar> \<le> b" "rd64 b = b"
  shows "\<bar>rd64 x\<bar> \<le> b"
proof -
  have "x \<le> b" "- b \<le> x"
    using assms(1) by simp_all
  then have "rd64 x \<le> rd64 b" "rd64 (- b) \<le> rd64 x"
    by (simp_all only: rd64_mono)
  then show ?thesis
    by (simp add: rd64_minus assms(2))
qed

text \<open>
  No operation of the loop body overflows: for an input of at most \<open>2\<^sup>5\<^sup>3 - 1\<close> samples that
  are single precision values, the index stays below \<open>2\<^sup>5\<^sup>4\<close> and the products and the sum
  stay below twice the largest single precision value.
\<close>

lemma index_finite:
  assumes "inputSampleRate \<noteq> 16000" "downsampleTo16k input inputSampleRate = Inr out"
    and "i < length out" and len: "real (length input) \<le> 2 ^ 53 - 1"
  shows "\<bar>rd64 (real i * rd64 (inputSampleRate / 16000))\<bar> \<le> 2 powi 54"
proof -
  define r where "r = rd64 (inputSampleRate / 16000)"
  define n where "n = real (length input)"
  define q where "q = rd64 (n / r)"
  have ne: "out \<noteq> []"
    using assms(3) by auto
  have ne': "input \<noteq> []"
    using assms(1,2) ne by (auto simp: downsampleTo16k_def split: if_splits)
  have r: "0 < r"
    unfolding r_def using downsampleTo16k_loop [OF assms(1,2) ne] by blast
  have rate: "0 < inputSampleRate"
  proof -
    have "0 < inputSampleRate / 16000"
      using r unfolding r_def by (rule rd64_pos_imp)
    then show ?thesis
      by simp
  qed
  have lo: "int (length out) \<le> \<lceil>q\<rceil>"
  proof (cases "f64 (inputSampleRate / 16000)")
    case (Num ratio)
    then have ratio: "ratio = r"
      unfolding r_def using f64_NumD by blast
    show ?thesis
    proof (cases "f64 (n / r)")
      case q: (Num q')
      then have "q' = q"
        unfolding q_def using f64_NumD by blast
      then show ?thesis
        using assms(1,2) ne ne' Num ratio r q
        by (auto simp: downsampleTo16k_def f64_div_def n_def downsample_loop_length split: if_splits)
    qed (use assms(1,2) ne ne' Num ratio r in \<open>auto simp: downsampleTo16k_def f64_div_def n_def split: if_splits\<close>)
  qed (use assms(1,2) ne ne' in \<open>auto simp: downsampleTo16k_def split: if_splits\<close>)
  have "\<bar>real i * r\<bar> \<le> 2 powi 54"
  proof (cases "i = 0")
    case True
    then show ?thesis
      using powi_pos [of 54] by (simp add: less_imp_le)
  next
    case False
    then have i1: "1 \<le> real i"
      by simp
    have "int i < \<lceil>q\<rceil>"
      using assms(3) lo by linarith
    then have iq: "real i < q"
      by (metis less_ceiling_iff of_int_of_nat_eq)
    then have "1 < q"
      using i1 by linarith
    then have "q \<le> 2 * (n / r)"
      unfolding q_def by (rule rd64_at_most_twice)
    then have "real i < 2 * (n / r)"
      using iq by linarith
    then have "real i * r < 2 * (n / r) * r"
      using r by (simp only: mult_strict_right_mono)
    also have "\<dots> = 2 * n"
      using r by simp
    also have "\<dots> \<le> 2 * (2 ^ 53 - 1)"
      using len unfolding n_def by simp
    also have "\<dots> \<le> 2 powi 54"
      by simp
    finally show ?thesis
      using r by simp
  qed
  then show ?thesis
    unfolding r_def [symmetric] by (rule rd64_bounded) (rule rd64_pow2, simp)
qed

lemma rd64_max_float32: "rd64 max_float32 = max_float32" "rd64 (2 * max_float32) = 2 * max_float32"
proof -
  show "rd64 max_float32 = max_float32"
    unfolding rd64_def max_float32_def by (rule round_to_fix [of _ "2 ^ 24 - 1" 104]) simp_all
  show "rd64 (2 * max_float32) = 2 * max_float32"
    unfolding rd64_def max_float32_def by (rule round_to_fix [of _ "2 ^ 24 - 1" 105]) simp_all
qed

lemma max_float32_double: "2 * max_float32 \<le> max_double"
proof -
  have "2 * max_float32 \<le> 2 ^ 24 * 2 ^ 105"
    by (simp add: max_float32_def)
  also have "\<dots> \<le> (2 ^ 53 - 1) * 2 ^ 105"
    by (rule mult_right_mono) simp_all
  also have "\<dots> \<le> max_double"
    unfolding max_double_def by (rule mult_left_mono) simp_all
  finally show ?thesis .
qed

lemma blend_finite:
  assumes a: "is_float32 a" and b: "is_float32 b" and w: "0 \<le> w" "w < 1"
  shows "\<bar>rd64 (a * rd64 (1 - w))\<bar> \<le> max_float32" "\<bar>rd64 (b * w)\<bar> \<le> max_float32"
    "\<bar>rd64 (rd64 (a * rd64 (1 - w)) + rd64 (b * w))\<bar> \<le> max_double"
proof -
  have c: "0 \<le> rd64 (1 - w)" "rd64 (1 - w) \<le> 1"
    using w by (rule rd64_complement)+
  have "\<bar>a * rd64 (1 - w)\<bar> \<le> \<bar>a\<bar> * 1"
    unfolding abs_mult using c by (intro mult_left_mono) simp_all
  then have "\<bar>a * rd64 (1 - w)\<bar> \<le> max_float32"
    using a by (simp add: is_float32_def)
  then show 1: "\<bar>rd64 (a * rd64 (1 - w))\<bar> \<le> max_float32"
    using rd64_max_float32(1) by (rule rd64_bounded)
  have "\<bar>b * w\<bar> \<le> \<bar>b\<bar> * 1"
    unfolding abs_mult using w by (intro mult_left_mono) simp_all
  then have "\<bar>b * w\<bar> \<le> max_float32"
    using b by (simp add: is_float32_def)
  then show 2: "\<bar>rd64 (b * w)\<bar> \<le> max_float32"
    using rd64_max_float32(1) by (rule rd64_bounded)
  have "\<bar>rd64 (a * rd64 (1 - w)) + rd64 (b * w)\<bar> \<le> 2 * max_float32"
    using 1 2 by linarith
  then have "\<bar>rd64 (rd64 (a * rd64 (1 - w)) + rd64 (b * w))\<bar> \<le> 2 * max_float32"
    using rd64_max_float32(2) by (rule rd64_bounded)
  then show "\<bar>rd64 (rd64 (a * rd64 (1 - w)) + rd64 (b * w))\<bar> \<le> max_double"
    using max_float32_double by linarith
qed

section \<open>Claims about the level meter and the resampler\<close>

text \<open>
  C6 (as amended). For every non-empty buffer \<^verbatim>\<open>calculateRMS\<close> returns the square root of
  the mean of the squared samples; a constant buffer of value \<open>v\<close> yields \<open>\<bar>v\<bar>\<close> and an
  all-zero buffer yields 0. For the empty buffer the division is \<open>0 / 0\<close> and the result
  is NaN: the function has no guard for the empty buffer.
\<close>

theorem calculateRMS_value:
  "(data \<noteq> [] \<longrightarrow>
      calculateRMS data = Num (sqrt (sum_list (map (\<lambda>x. x * x) data) / real (length data)))) \<and>
   (0 < n \<longrightarrow> calculateRMS (replicate n v) = Num \<bar>v\<bar> \<and> calculateRMS (replicate n 0) = Num 0) \<and>
   calculateRMS [] = NaN"
  using calculateRMS_nonempty [of data] calculateRMS_constant [of n v]
    calculateRMS_constant [of n 0] calculateRMS_empty
  by simp

theorem calculateRMS_value_witness:
  "[3, 3 :: real] \<noteq> [] \<and> (0::nat) < 2 \<and>
   calculateRMS [3, 3] = Num (sqrt ((3 * 3 + 3 * 3) / 2)) \<and>
   calculateRMS (replicate 2 3) = Num 3 \<and> calculateRMS (replicate 2 0) = Num 0"
  using calculateRMS_value [of "[3, 3]" 2 3] by simp

text \<open>
  C6 as the specification states it fails at the empty buffer: the result there is not 0.
\<close>

theorem calculateRMS_empty_counterexample: "calculateRMS [] \<noteq> Num 0"
  by (simp add: calculateRMS_def js_div_def rms_loop_all)

text \<open>
  C7. When the input sample rate equals the target rate of 16000 Hz the resampler returns
  its input unchanged, for every input buffer: the same values and the same length.
\<close>

theorem downsampleTo16k_identity: "downsampleTo16k input 16000 = Inr input"
  by (simp add: downsampleTo16k_def)

text \<open>
  C8 (as amended). For every non-empty input buffer and every positive finite input rate
  other than 16000 Hz the resampler returns a buffer whose length is \<^verbatim>\<open>Math.ceil\<close> of the
  double quotient \<^verbatim>\<open>input.length / ratio\<close>, where \<^verbatim>\<open>ratio\<close> is the double quotient
  \<^verbatim>\<open>inputSampleRate / 16000\<close>; the length is at least 1. It raises a RangeError instead when
  the ratio underflows to zero or the length exceeds \<open>2\<^sup>5\<^sup>3 - 1\<close>. An input of length 300 at
  48000 Hz yields exactly 100 samples. An empty input yields an empty output, without
  error, for every rate. A negative rate yields an empty output, and the rate 0 a
  RangeError for every non-empty input.
\<close>

theorem downsampleTo16k_length:
  "(0 < inputSampleRate \<and> inputSampleRate \<le> max_double \<and> inputSampleRate \<noteq> 16000 \<and> input \<noteq> [] \<longrightarrow>
      (if rd64 (inputSampleRate / 16000) = 0 \<or>
          2 ^ 53 - 1 < \<lceil>rd64 (real (length input) / rd64 (inputSampleRate / 16000))\<rceil>
       then downsampleTo16k input inputSampleRate = Inl RangeError
       else \<exists>out. downsampleTo16k input inputSampleRate = Inr out \<and> out \<noteq> [] \<and>
              int (length out) = \<lceil>rd64 (real (length input) / rd64 (inputSampleRate / 16000))\<rceil>)) \<and>
   (length input = 300 \<longrightarrow> (\<exists>out. downsampleTo16k input 48000 = Inr out \<and> length out = 100)) \<and>
   downsampleTo16k [] inputSampleRate = Inr [] \<and>
   (inputSampleRate < 0 \<longrightarrow> downsampleTo16k input inputSampleRate = Inr []) \<and>
   (input \<noteq> [] \<longrightarrow> downsampleTo16k input 0 = Inl RangeError)"
proof (intro conjI impI)
  assume a: "0 < inputSampleRate \<and> inputSampleRate \<le> max_double \<and> inputSampleRate \<noteq> 16000 \<and> input \<noteq> []"
  let ?r = "rd64 (inputSampleRate / 16000)"
  let ?c = "\<lceil>rd64 (real (length input) / ?r)\<rceil>"
  have res: "downsampleTo16k input inputSampleRate =
     (if ?r = 0 \<or> 2 ^ 53 - 1 < ?c then Inl RangeError
      else Inr (map (\<lambda>i. fround (interpolate input ?r i)) [0 ..< nat ?c]))"
    using a by (intro downsampleTo16k_positive(1)) simp_all
  have r0: "0 \<le> ?r"
    using a by (intro rd64_nonneg) simp
  have pos: "0 < ?c" if "?r \<noteq> 0"
    using that r0 a by (intro downsampleTo16k_positive(2)) simp_all
  show "if ?r = 0 \<or> 2 ^ 53 - 1 < ?c
       then downsampleTo16k input inputSampleRate = Inl RangeError
       else \<exists>out. downsampleTo16k input inputSampleRate = Inr out \<and> out \<noteq> [] \<and> int (length out) = ?c"
  proof (cases "?r = 0 \<or> 2 ^ 53 - 1 < ?c")
    case True
    then show ?thesis
      using res by simp
  next
    case False
    then have "0 < ?c"
      using pos by simp
    then show ?thesis
      using False res by auto
  qed
next
  assume "length input = 300"
  then show "\<exists>out. downsampleTo16k input 48000 = Inr out \<and> length out = 100"
    by (rule rate_48000)
next
  show "downsampleTo16k [] inputSampleRate = Inr []"
    by (simp add: downsampleTo16k_def)
next
  assume "inputSampleRate < 0"
  then show "downsampleTo16k input inputSampleRate = Inr []"
    by (rule downsampleTo16k_negative)
next
  assume "input \<noteq> []"
  then show "downsampleTo16k input 0 = Inl RangeError"
    by (rule downsampleTo16k_zero)
qed

theorem downsampleTo16k_length_witness:
  "(0::real) < 22400 \<and> (22400::real) \<le> max_double \<and> (22400::real) \<noteq> 16000 \<and>
   replicate 21 (1 / 2 :: real) \<noteq> [] \<and>
   rd64 (22400 / 16000) = 3152519739159347 / 2251799813685248 \<and>
   \<lceil>rd64 (real (length (replicate 21 (1 / 2 :: real))) / rd64 (22400 / 16000))\<rceil> = 16 \<and>
   (\<exists>out. downsampleTo16k (replicate 21 (1 / 2)) 22400 = Inr out \<and> length out = 16) \<and>
   length (replicate 300 (1 / 2 :: real)) = 300 \<and>
   (\<exists>out. downsampleTo16k (replicate 300 (1 / 2)) 48000 = Inr out \<and> length out = 100) \<and>
   (- 16000 :: real) < 0 \<and> downsampleTo16k [1 / 2] (- 16000) = Inr [] \<and>
   [1 / 2 :: real] \<noteq> [] \<and> downsampleTo16k [1 / 2] 0 = Inl RangeError"
proof -
  let ?input = "replicate 21 (1 / 2 :: real)"
  let ?c = "\<lceil>rd64 (real (length ?input) / rd64 (22400 / 16000))\<rceil>"
  have h: "(0::real) < 22400 \<and> (22400::real) \<le> max_double \<and> (22400::real) \<noteq> 16000 \<and> ?input \<noteq> []"
    using rate_22400(1) by simp
  then have "if rd64 (22400 / 16000) = 0 \<or> 2 ^ 53 - 1 < ?c
       then downsampleTo16k ?input 22400 = Inl RangeError
       else \<exists>out. downsampleTo16k ?input 22400 = Inr out \<and> out \<noteq> [] \<and> int (length out) = ?c"
    using downsampleTo16k_length [of 22400 ?input] by blast
  then have "\<exists>out. downsampleTo16k ?input 22400 = Inr out \<and> out \<noteq> [] \<and> int (length out) = ?c"
    using rate_22400(2) by (simp only: if_False)
  then have 1: "\<exists>out. downsampleTo16k ?input 22400 = Inr out \<and> length out = 16"
    unfolding length_21_22400 by auto
  have 2: "\<exists>out. downsampleTo16k (replicate 300 (1 / 2)) 48000 = Inr out \<and> length out = 100"
    using downsampleTo16k_length [of 48000 "replicate 300 (1 / 2)"] by simp
  have 3: "downsampleTo16k [1 / 2] (- 16000) = Inr []" "downsampleTo16k [1 / 2] 0 = Inl RangeError"
    using downsampleTo16k_length [of "- 16000" "[1 / 2]"] by simp_all
  show ?thesis
    using h 1 2 3 ratio_22400 length_21_22400 by simp
qed

text \<open>
  C8 as the specification states it fails in three ways. At the rate \<open>-16000\<close> the ceiling
  of \<open>1 / (-16000 / 16000)\<close> is \<open>-1\<close>, and the output is empty. At 22400 Hz and 21 samples
  the ceiling of the exact quotient \<open>21 / 1.4\<close> is 15, but the double nearest to 1.4 is
  below 1.4, the double quotient is above 15 and the output has 16 samples. At the rate 0
  there is no output: the call raises a RangeError.
\<close>

theorem downsampleTo16k_length_counterexample:
  "downsampleTo16k [1 / 2] (- 16000) = Inr [] \<and>
   \<lceil>real (length [1 / 2 :: real]) / (- 16000 / 16000)\<rceil> = - 1 \<and>
   (\<exists>out. downsampleTo16k (replicate 21 (1 / 2)) 22400 = Inr out \<and> length out = 16) \<and>
   \<lceil>real (length (replicate 21 (1 / 2 :: real))) / (22400 / 16000)\<rceil> = 15 \<and>
   downsampleTo16k [1 / 2] 0 = Inl RangeError"
proof -
  let ?input = "replicate 21 (1 / 2 :: real)"
  let ?c = "\<lceil>rd64 (real (length ?input) / rd64 (22400 / 16000))\<rceil>"
  have "downsampleTo16k ?input 22400 =
     (if rd64 (22400 / 16000) = 0 \<or> 2 ^ 53 - 1 < ?c then Inl RangeError
      else Inr (map (\<lambda>i. fround (interpolate ?input (rd64 (22400 / 16000)) i)) [0 ..< nat ?c]))"
    using rate_22400(1) by (intro downsampleTo16k_positive(1)) simp_all
  then have "downsampleTo16k ?input 22400 =
      Inr (map (\<lambda>i. fround (interpolate ?input (rd64 (22400 / 16000)) i)) [0 ..< nat ?c])"
    using rate_22400(2) by (simp only: if_False)
  then have 1: "\<exists>out. downsampleTo16k ?input 22400 = Inr out \<and> length out = 16"
    unfolding length_21_22400 by simp
  have 2: "\<lceil>real (length ?input) / (22400 / 16000)\<rceil> = 15"
    by simp
  have "\<lceil>- 1 :: real\<rceil> = - 1"
    using ceiling_of_int [of "- 1"] by simp
  then show ?thesis
    using 1 2 downsampleTo16k_negative [of "- 16000" "[1 / 2]"] downsampleTo16k_zero [of "[1 / 2]"]
    by simp
qed

text \<open>
  C10. Every output sample is the convex combination \<open>s1 * (1 - w) + s2 * w\<close> as the code
  evaluates it, in double precision, rounded to single precision by the store into the
  result. Here \<open>index\<close> is the double product of the output index and the ratio, \<open>w\<close> is its
  fractional part, \<open>0 \<le> w < 1\<close>, \<open>s1\<close> is the input sample at \<open>\<lfloor>index\<rfloor>\<close>, or 0 when
  that index is out of range, and \<open>s2\<close> is the input sample at \<open>\<lceil>index\<rceil>\<close> or, when that
  index is out of range or the sample there is 0, \<open>s1\<close>. For an input of single precision
  values the rounding does not leave the interval between \<open>s1\<close> and \<open>s2\<close>: every output
  sample is a single precision value between the minimum and the maximum of the input
  samples and 0, and input samples in \<open>[-1, 1]\<close> give output samples in \<open>[-1, 1]\<close>. At
  the rate 16000 the output is the input.
\<close>

theorem downsampleTo16k_convex:
  assumes "\<forall>x \<in> set input. is_float32 x"
    and "downsampleTo16k input inputSampleRate = Inr out" and "i < length out"
  shows "(inputSampleRate \<noteq> 16000 \<longrightarrow>
           (\<exists>index w s1 s2.
              index = rd64 (real i * rd64 (inputSampleRate / 16000)) \<and> 0 \<le> index \<and>
              w = index - of_int \<lfloor>index\<rfloor> \<and> 0 \<le> w \<and> w < 1 \<and>
              s1 = (if nat \<lfloor>index\<rfloor> < length input then input ! nat \<lfloor>index\<rfloor> else 0) \<and>
              s2 = (if nat \<lceil>index\<rceil> < length input \<and> input ! nat \<lceil>index\<rceil> \<noteq> 0
                    then input ! nat \<lceil>index\<rceil> else s1) \<and>
              out ! i = fround (rd64 (rd64 (s1 * rd64 (1 - w)) + rd64 (s2 * w))) \<and>
              min s1 s2 \<le> out ! i \<and> out ! i \<le> max s1 s2)) \<and>
         is_float32 (out ! i) \<and>
         Min (insert 0 (set input)) \<le> out ! i \<and> out ! i \<le> Max (insert 0 (set input)) \<and>
         ((\<forall>x \<in> set input. - 1 \<le> x \<and> x \<le> 1) \<longrightarrow> - 1 \<le> out ! i \<and> out ! i \<le> 1)"
proof -
  let ?S = "insert 0 (set input)"
  have S: "\<forall>x \<in> ?S. is_float32 x"
    using assms(1) by simp
  have unit: "- 1 \<le> y \<and> y \<le> 1"
    if "Min ?S \<le> y" "y \<le> Max ?S" "\<forall>x \<in> set input. - 1 \<le> x \<and> x \<le> 1" for y
  proof -
    have "- 1 \<le> Min ?S" "Max ?S \<le> 1"
      using that(3) by simp_all
    with that(1,2) show ?thesis by linarith
  qed
  show ?thesis
  proof (cases "inputSampleRate = 16000")
    case True
    then have "out = input"
      using assms(2) by (simp add: downsampleTo16k_def)
    then have m: "out ! i \<in> ?S"
      using assms(3) by simp
    then have "Min ?S \<le> out ! i" "out ! i \<le> Max ?S"
      by simp_all
    moreover have "is_float32 (out ! i)"
      using S m by blast
    ultimately show ?thesis
      using True unit by blast
  next
    case False
    let ?r = "rd64 (inputSampleRate / 16000)"
    have ne: "out \<noteq> []"
      using assms(3) by auto
    have r: "0 < ?r" and out: "out = map (\<lambda>i. fround (interpolate input ?r i)) [0 ..< length out]"
      using downsampleTo16k_loop [OF False assms(2) ne] by blast+
    have oi: "out ! i = fround (interpolate input ?r i)"
      using assms(3) by (subst out) simp
    obtain index w s1 s2 where v: "index = rd64 (real i * ?r)" "0 \<le> index"
      "w = index - of_int \<lfloor>index\<rfloor>" "0 \<le> w" "w < 1"
      "s1 = (if nat \<lfloor>index\<rfloor> < length input then input ! nat \<lfloor>index\<rfloor> else 0)"
      "s2 = (if nat \<lceil>index\<rceil> < length input \<and> input ! nat \<lceil>index\<rceil> \<noteq> 0
             then input ! nat \<lceil>index\<rceil> else s1)"
      "interpolate input ?r i = rd64 (rd64 (s1 * rd64 (1 - w)) + rd64 (s2 * w))"
      using interpolate_value [of ?r i input] r by auto
    have s1: "s1 \<in> ?S"
      unfolding v(6) by simp
    then have s2: "s2 \<in> ?S"
      unfolding v(7) by simp
    have f: "fround s1 = s1" "fround s2 = s2"
      using S s1 s2 by (auto simp: is_float32_def)
    have eq: "out ! i = fround (rd64 (rd64 (s1 * rd64 (1 - w)) + rd64 (s2 * w)))"
      using oi v(8) by simp
    have lo: "min s1 s2 \<le> out ! i"
      unfolding eq using f v(4,5) by (rule blend_lower)
    have hi: "out ! i \<le> max s1 s2"
      unfolding eq using f v(4,5) by (rule blend_upper)
    have "Min ?S \<le> min s1 s2" "max s1 s2 \<le> Max ?S"
      using s1 s2 by (simp_all add: min_def max_def)
    then have b: "Min ?S \<le> out ! i" "out ! i \<le> Max ?S"
      using lo hi by linarith+
    have m: "\<bar>s1\<bar> \<le> max_float32" "\<bar>s2\<bar> \<le> max_float32"
      using S s1 s2 by (auto simp: is_float32_def)
    have "\<bar>out ! i\<bar> \<le> max_float32"
      using lo hi m by (simp add: min_def max_def split: if_splits; linarith)
    moreover have "fround (out ! i) = out ! i"
      unfolding eq by simp
    ultimately have fl: "is_float32 (out ! i)"
      by (simp add: is_float32_def)
    have "\<exists>index w s1 s2.
              index = rd64 (real i * ?r) \<and> 0 \<le> index \<and>
              w = index - of_int \<lfloor>index\<rfloor> \<and> 0 \<le> w \<and> w < 1 \<and>
              s1 = (if nat \<lfloor>index\<rfloor> < length input then input ! nat \<lfloor>index\<rfloor> else 0) \<and>
              s2 = (if nat \<lceil>index\<rceil> < length input \<and> input ! nat \<lceil>index\<rceil> \<noteq> 0
                    then input ! nat \<lceil>index\<rceil> else s1) \<and>
              out ! i = fround (rd64 (rd64 (s1 * rd64 (1 - w)) + rd64 (s2 * w))) \<and>
              min s1 s2 \<le> out ! i \<and> out ! i \<le> max s1 s2"
      using v(1-7) eq lo hi by blast
    then show ?thesis
      using b fl unit by blast
  qed
qed

theorem downsampleTo16k_convex_witness:
  "is_float32 1 \<and> is_float32 (- 1) \<and> is_float32 (1 / 2) \<and>
   (\<exists>out. downsampleTo16k [1, - 1, 1 / 2] 22400 = Inr out \<and> length out = 3 \<and>
      rd64 (real 1 * rd64 (22400 / 16000)) = 3152519739159347 / 2251799813685248 \<and>
      out ! 1 = fround (rd64 (rd64 (- 1 * rd64 (1 - 900719925474099 / 2251799813685248)) +
                              rd64 (1 / 2 * (900719925474099 / 2251799813685248)))) \<and>
      out ! 1 = - 13421773 / 33554432 \<and>
      min (- 1) (1 / 2) \<le> out ! 1 \<and> out ! 1 \<le> max (- 1) (1 / 2) \<and> is_float32 (out ! 1))"
proof -
  let ?input = "[1, - 1, 1 / 2 :: real]"
  define out where "out = map (\<lambda>i. fround (interpolate ?input (rd64 (22400 / 16000)) i)) [0 ..< 3]"
  have res: "downsampleTo16k ?input 22400 = Inr out"
    unfolding out_def by (rule rate_22400_three)
  have len: "length out = 3"
    by (simp add: out_def)
  have fl: "\<forall>x \<in> set ?input. is_float32 x"
    using float32_examples by simp
  have i: "1 < length out"
    using len by simp
  have idx: "rd64 (real 1 * rd64 (22400 / 16000)) = 3152519739159347 / 2251799813685248"
    using ratio_22400 by simp
  have fc: "\<lfloor>3152519739159347 / 2251799813685248 :: real\<rfloor> = 1"
    "\<lceil>3152519739159347 / 2251799813685248 :: real\<rceil> = 2"
    by simp_all
  have rate: "(22400::real) \<noteq> 16000"
    by simp
  note t = downsampleTo16k_convex [OF fl res i]
  from t rate have "\<exists>index w s1 s2.
      index = rd64 (real 1 * rd64 (22400 / 16000)) \<and> 0 \<le> index \<and>
      w = index - of_int \<lfloor>index\<rfloor> \<and> 0 \<le> w \<and> w < 1 \<and>
      s1 = (if nat \<lfloor>index\<rfloor> < length ?input then ?input ! nat \<lfloor>index\<rfloor> else 0) \<and>
      s2 = (if nat \<lceil>index\<rceil> < length ?input \<and> ?input ! nat \<lceil>index\<rceil> \<noteq> 0
            then ?input ! nat \<lceil>index\<rceil> else s1) \<and>
      out ! 1 = fround (rd64 (rd64 (s1 * rd64 (1 - w)) + rd64 (s2 * w))) \<and>
      min s1 s2 \<le> out ! 1 \<and> out ! 1 \<le> max s1 s2"
    by blast
  then obtain index w s1 s2 where v: "index = rd64 (real 1 * rd64 (22400 / 16000))"
    "w = index - of_int \<lfloor>index\<rfloor>"
    "s1 = (if nat \<lfloor>index\<rfloor> < length ?input then ?input ! nat \<lfloor>index\<rfloor> else 0)"
    "s2 = (if nat \<lceil>index\<rceil> < length ?input \<and> ?input ! nat \<lceil>index\<rceil> \<noteq> 0
           then ?input ! nat \<lceil>index\<rceil> else s1)"
    "out ! 1 = fround (rd64 (rd64 (s1 * rd64 (1 - w)) + rd64 (s2 * w)))"
    "min s1 s2 \<le> out ! 1" "out ! 1 \<le> max s1 s2"
    by blast
  have index: "index = 3152519739159347 / 2251799813685248"
    unfolding v(1) by (rule idx)
  have w: "w = 900719925474099 / 2251799813685248"
    unfolding v(2) index fc by simp
  have s1: "s1 = - 1"
    unfolding v(3) index fc by simp
  have s2: "s2 = 1 / 2"
    unfolding v(4) index fc s1 by simp
  have eq: "out ! 1 = fround (rd64 (rd64 (- 1 * rd64 (1 - 900719925474099 / 2251799813685248)) +
                              rd64 (1 / 2 * (900719925474099 / 2251799813685248))))"
    using v(5) unfolding s1 s2 w .
  have val: "out ! 1 = - 13421773 / 33554432"
    unfolding eq by (simp add: blend_example rd64_minus fround_minus)
  have b: "min (- 1) (1 / 2) \<le> out ! 1" "out ! 1 \<le> max (- 1) (1 / 2)"
    using v(6,7) unfolding s1 s2 .
  have f: "is_float32 (out ! 1)"
    using t by blast
  have "downsampleTo16k [1, - 1, 1 / 2] 22400 = Inr out \<and> length out = 3 \<and>
      rd64 (real 1 * rd64 (22400 / 16000)) = 3152519739159347 / 2251799813685248 \<and>
      out ! 1 = fround (rd64 (rd64 (- 1 * rd64 (1 - 900719925474099 / 2251799813685248)) +
                              rd64 (1 / 2 * (900719925474099 / 2251799813685248)))) \<and>
      out ! 1 = - 13421773 / 33554432 \<and>
      min (- 1) (1 / 2) \<le> out ! 1 \<and> out ! 1 \<le> max (- 1) (1 / 2) \<and> is_float32 (out ! 1)"
    using res len idx eq val b f by (intro conjI)
  then show ?thesis
    using float32_examples by blast
qed

section \<open>Properties of the codec\<close>

lemma createPcmBlob_loop_length:
  "length (createPcmBlob_loop data l i int16) = length int16"
proof (induction data l i int16 rule: createPcmBlob_loop.induct)
  case (1 data l i int16)
  show ?case
  proof (cases "i < l")
    case True
    then have "length (createPcmBlob_loop data l i int16) =
        length (ta_set int16 i (ToInt16 (pcm_scale (data ! i))))"
      using "1.IH" by (subst createPcmBlob_loop.simps) simp
    then show ?thesis by (simp add: ta_set_def)
  next
    case False
    then show ?thesis by (subst createPcmBlob_loop.simps) simp
  qed
qed

lemma createPcmBlob_loop_nth:
  "length int16 = l \<Longrightarrow> k < l \<Longrightarrow>
   createPcmBlob_loop data l i int16 ! k =
     (if i \<le> k then ToInt16 (pcm_scale (data ! k)) else int16 ! k)"
proof (induction data l i int16 rule: createPcmBlob_loop.induct)
  case (1 data l i int16)
  show ?case
  proof (cases "i < l")
    case True
    let ?r = "ta_set int16 i (ToInt16 (pcm_scale (data ! i)))"
    have len: "length ?r = l"
      using "1.prems" by (simp add: ta_set_def)
    have "createPcmBlob_loop data l i int16 ! k = createPcmBlob_loop data l (i + 1) ?r ! k"
      using True by (subst createPcmBlob_loop.simps) simp
    also have "\<dots> = (if i + 1 \<le> k then ToInt16 (pcm_scale (data ! k)) else ?r ! k)"
      using True len "1.prems" by (intro "1.IH") auto
    finally show ?thesis
      using True "1.prems" by (cases "i = k") (auto simp: ta_set_def)
  next
    case False
    then show ?thesis
      using "1.prems" by (subst createPcmBlob_loop.simps) simp
  qed
qed

lemma createPcmBlob_loop_map:
  "createPcmBlob_loop data (length data) 0 (replicate (length data) 0) =
   map (\<lambda>x. ToInt16 (pcm_scale x)) data"
  by (rule nth_equalityI) (simp_all add: createPcmBlob_loop_length createPcmBlob_loop_nth)

lemma arrayBufferToBase64_loop_append:
  "i \<le> length bytes \<Longrightarrow>
   arrayBufferToBase64_loop bytes (length bytes) i binary =
   binary @ map (\<lambda>b. char_of (unat b)) (drop i bytes)"
proof (induction bytes "length bytes" i binary rule: arrayBufferToBase64_loop.induct)
  case (1 bytes i binary)
  show ?case
  proof (cases "i < length bytes")
    case True
    have d: "drop i bytes = bytes ! i # drop (Suc i) bytes"
      using True by (simp add: Cons_nth_drop_Suc)
    have "arrayBufferToBase64_loop bytes (length bytes) i binary =
        arrayBufferToBase64_loop bytes (length bytes) (i + 1) (binary @ [char_of (unat (bytes ! i))])"
      using True by (subst arrayBufferToBase64_loop.simps) simp
    also have "\<dots> = (binary @ [char_of (unat (bytes ! i))]) @
        map (\<lambda>b. char_of (unat b)) (drop (i + 1) bytes)"
      using True by (intro "1.hyps") auto
    finally show ?thesis
      by (simp add: d)
  next
    case False
    then show ?thesis
      using "1.prems" by (subst arrayBufferToBase64_loop.simps) simp
  qed
qed

lemma decodeBase64_loop_length:
  "length (decodeBase64_loop s len i bytes) = length bytes"
proof (induction s len i bytes rule: decodeBase64_loop.induct)
  case (1 s len i bytes)
  show ?case
  proof (cases "i < len")
    case True
    then have "length (decodeBase64_loop s len i bytes) =
        length (ta_set bytes i (of_nat (of_char (s ! i)) :: uint8))"
      using "1.IH" by (subst decodeBase64_loop.simps) simp
    then show ?thesis by (simp add: ta_set_def)
  next
    case False
    then show ?thesis by (subst decodeBase64_loop.simps) simp
  qed
qed

lemma decodeBase64_loop_nth:
  "length bytes = len \<Longrightarrow> k < len \<Longrightarrow>
   decodeBase64_loop s len i bytes ! k =
     (if i \<le> k then of_nat (of_char (s ! k)) else bytes ! k)"
proof (induction s len i bytes rule: decodeBase64_loop.induct)
  case (1 s len i bytes)
  show ?case
  proof (cases "i < len")
    case True
    let ?r = "ta_set bytes i (of_nat (of_char (s ! i)) :: uint8)"
    have len: "length ?r = len"
      using "1.prems" by (simp add: ta_set_def)
    have "decodeBase64_loop s len i bytes ! k = decodeBase64_loop s len (i + 1) ?r ! k"
      using True by (subst decodeBase64_loop.simps) simp
    also have "\<dots> = (if i + 1 \<le> k then of_nat (of_char (s ! k)) else ?r ! k)"
      using True len "1.prems" by (intro "1.IH") auto
    finally show ?thesis
      using True "1.prems" by (cases "i = k") (auto simp: ta_set_def)
  next
    case False
    then show ?thesis
      using "1.prems" by (subst decodeBase64_loop.simps) simp
  qed
qed

lemma decodeBase64_loop_map:
  "decodeBase64_loop s (length s) 0 (replicate (length s) 0) =
   map (\<lambda>c. of_nat (of_char c)) s"
  by (rule nth_equalityI) (simp_all add: decodeBase64_loop_length decodeBase64_loop_nth)

lemma int16_view_bytes: "int16_view (int16_bytes w @ rest) = w # int16_view rest"
proof -
  have "push_bit 8 (ucast (ucast (drop_bit 8 w) :: uint8)) OR ucast (ucast w :: uint8) = w"
    by (rule bit_word_eqI) (auto simp: bit_simps)
  then show ?thesis
    by (simp add: int16_bytes_def)
qed

lemma int16_view_buffer: "int16_view (buffer_of_Int16Array ws) = ws"
  by (induction ws) (simp_all add: buffer_of_Int16Array_def int16_view_bytes)

lemma length_buffer_of_Int16Array: "length (buffer_of_Int16Array ws) = 2 * length ws"
  by (induction ws) (simp_all add: buffer_of_Int16Array_def int16_bytes_def)

lemma digit64: "(m::nat) div (k * 64) * 64 + m div k mod 64 = m div k"
proof -
  have "m div (k * 64) = m div k div 64"
    by (simp add: div_mult2_eq)
  then show ?thesis by simp
qed

lemma re4: "(((n::nat) div 262144 * 64 + n div 4096 mod 64) * 64 + n div 64 mod 64) * 64 + n mod 64 = n"
proof -
  have a: "n div 262144 * 64 + n div 4096 mod 64 = n div 4096"
    using digit64 [of n 4096] by simp
  have b: "n div 4096 * 64 + n div 64 mod 64 = n div 64"
    using digit64 [of n 64] by simp
  show ?thesis
    by (simp only: a b) simp
qed

lemma bytes3:
  fixes a b c :: nat
  assumes "b < 256" "c < 256"
  shows "(a * 65536 + b * 256 + c) div 65536 = a"
    and "(a * 65536 + b * 256 + c) div 256 mod 256 = b"
    and "(a * 65536 + b * 256 + c) mod 256 = c"
proof -
  have "b * 256 + c < 65536"
    using assms by simp
  then show "(a * 65536 + b * 256 + c) div 65536 = a"
    by (simp add: add.assoc)
  have "(a * 65536 + b * 256 + c) div 256 = a * 256 + b"
    using assms by simp
  then show "(a * 65536 + b * 256 + c) div 256 mod 256 = b"
    using assms by simp
  have "a * 65536 + b * 256 + c = (a * 256 + b) * 256 + c"
    by simp
  then show "(a * 65536 + b * 256 + c) mod 256 = c"
    using assms by (simp only: mod_mult_self3) simp
qed

lemma re3:
  fixes a b :: nat
  shows "(((a * 256 + b) * 4 div 4096 * 64 + (a * 256 + b) * 4 div 64 mod 64) * 64 + (a * 256 + b) * 4 mod 64) div 4 = a * 256 + b"
proof -
  define n where "n = (a * 256 + b) * 4"
  have a: "n div 4096 * 64 + n div 64 mod 64 = n div 64"
    using digit64 [of n 64] by simp
  have "(n div 64 * 64 + n mod 64) div 4 = a * 256 + b"
    by (simp add: n_def)
  then show ?thesis
    unfolding n_def [symmetric] by (simp only: a)
qed

lemma re2: "((a::nat) * 16 div 64 * 64 + a * 16 mod 64) div 16 = a"
proof -
  have "a * 16 div 64 * 64 + a * 16 mod 64 = a * 16"
    by (rule div_mult_mod_eq)
  then show ?thesis
    by (simp only: nonzero_mult_div_cancel_right)
qed

lemma index_of_nth: "distinct xs \<Longrightarrow> i < length xs \<Longrightarrow> index_of xs (xs ! i) = Some i"
proof (induction xs arbitrary: i)
  case Nil
  then show ?case by simp
next
  case (Cons x xs)
  show ?case
  proof (cases i)
    case 0
    then show ?thesis by simp
  next
    case (Suc j)
    then have "xs ! j \<in> set xs" "index_of xs (xs ! j) = Some j"
      using Cons by simp_all
    then show ?thesis
      using Cons.prems Suc by auto
  qed
qed

lemma b64_alphabet_distinct: "distinct b64_alphabet"
  by (simp add: b64_alphabet_def)

lemma b64_alphabet_length: "length b64_alphabet = 64"
  by (simp add: b64_alphabet_def)

lemma b64_alphabet_no_padding: "CHR ''='' \<notin> set b64_alphabet"
  by (simp add: b64_alphabet_def)

lemma b64_alphabet_no_whitespace: "c \<in> set b64_alphabet \<Longrightarrow> \<not> ascii_whitespace c"
  by (auto simp: b64_alphabet_def ascii_whitespace_def)

lemma btoa_sextets_bound:
  "\<forall>b \<in> set bs. b < 256 \<Longrightarrow> \<forall>s \<in> set (btoa_sextets bs). s < 64"
proof (induction bs rule: btoa_sextets.induct)
  case (1 a b c rest)
  then have "a * 65536 + b * 256 + c < 16777216"
    by simp
  then have "(a * 65536 + b * 256 + c) div 262144 < 64"
    by simp
  with 1 show ?case
    by (simp add: Let_def)
next
  case (2 a b)
  then have "(a * 256 + b) * 4 < 262144"
    by simp
  then have "(a * 256 + b) * 4 div 4096 < 64"
    by simp
  then show ?case
    by (simp add: Let_def)
next
  case (3 a)
  then have "a * 16 div 64 < 64"
    by simp
  then show ?case
    by (simp add: Let_def)
next
  case 4
  then show ?case by simp
qed

lemma btoa_shape:
  "(btoa_padding bs = [] \<and> length (btoa_sextets bs) mod 4 = 0) \<or>
   (btoa_padding bs = ''='' \<and> length (btoa_sextets bs) mod 4 = 3) \<or>
   (btoa_padding bs = ''=='' \<and> length (btoa_sextets bs) mod 4 = 2)"
  by (induction bs rule: btoa_sextets.induct) (simp_all add: Let_def)

lemma btoa_chars: "set (btoa binary) \<subseteq> insert (CHR ''='') (set b64_alphabet)"
proof -
  let ?bytes = "map of_char binary :: nat list"
  have "\<forall>b \<in> set ?bytes. b < 256"
    by auto
  then have "\<forall>s \<in> set (btoa_sextets ?bytes). s < 64"
    by (rule btoa_sextets_bound)
  then have "set (map (\<lambda>s. b64_alphabet ! s) (btoa_sextets ?bytes)) \<subseteq> set b64_alphabet"
    by (auto simp: b64_alphabet_length)
  moreover have "set (btoa_padding ?bytes) \<subseteq> {CHR ''=''}"
    using btoa_shape [of ?bytes] by auto
  ultimately show ?thesis
    by (auto simp: btoa_def Let_def)
qed

lemma atob_groups_sextets:
  "\<forall>b \<in> set bs. b < 256 \<Longrightarrow> atob_groups (btoa_sextets bs) = bs"
proof (induction bs rule: btoa_sextets.induct)
  case (1 a b c rest)
  define n where "n = a * 65536 + b * 256 + c"
  have lt: "b < 256" "c < 256"
    using 1 by simp_all
  have byt: "n div 65536 = a" "n div 256 mod 256 = b" "n mod 256 = c"
    using bytes3 [OF lt, of a] by (simp_all add: n_def)
  have rest: "atob_groups (btoa_sextets rest) = rest"
    using 1 by simp
  have "atob_groups (btoa_sextets (a # b # c # rest)) =
      (let m = ((n div 262144 * 64 + n div 4096 mod 64) * 64 + n div 64 mod 64) * 64 + n mod 64
       in [m div 65536, m div 256 mod 256, m mod 256]) @ atob_groups (btoa_sextets rest)"
    by (simp add: Let_def n_def)
  then show ?case
    by (simp only: re4 Let_def byt rest) simp
next
  case (2 a b)
  have lt: "b < 256"
    using 2 by simp
  have "(a * 256 + b) div 256 = a" "(a * 256 + b) mod 256 = b"
    using lt by simp_all
  moreover have "atob_groups (btoa_sextets [a, b]) =
      (let m = (((a * 256 + b) * 4 div 4096 * 64 + (a * 256 + b) * 4 div 64 mod 64) * 64 +
                 (a * 256 + b) * 4 mod 64) div 4
       in [m div 256, m mod 256])"
    by (simp add: Let_def)
  ultimately show ?case
    by (simp only: re3 Let_def)
next
  case (3 a)
  have "atob_groups (btoa_sextets [a]) = [(a * 16 div 64 * 64 + a * 16 mod 64) div 16]"
    by (simp add: Let_def)
  then show ?case
    by (simp only: re2)
next
  case 4
  then show ?case by simp
qed

lemma strip_padding_body:
  assumes "CHR ''='' \<notin> set cs"
    and "(pad = [] \<and> length cs mod 4 = 0) \<or> (pad = ''='' \<and> length cs mod 4 = 3) \<or>
         (pad = ''=='' \<and> length cs mod 4 = 2)"
  shows "strip_padding (cs @ pad) = cs"
proof -
  consider "pad = []" "length cs mod 4 = 0" | "pad = ''=''" "length cs mod 4 = 3"
    | "pad = ''==''" "length cs mod 4 = 2"
    using assms(2) by auto
  then show ?thesis
  proof cases
    case 1
    show ?thesis
    proof (cases cs rule: rev_cases)
      case Nil
      then show ?thesis using 1 by (simp add: strip_padding_def)
    next
      case (snoc ys y)
      then have "y \<noteq> CHR ''=''"
        using assms(1) by auto
      then show ?thesis
        using 1 snoc by (simp add: strip_padding_def split: list.splits)
    qed
  next
    case 2
    then obtain ys y where cs: "cs = ys @ [y]"
      by (cases cs rule: rev_cases) auto
    then have "y \<noteq> CHR ''=''"
      using assms(1) by auto
    moreover have "length (cs @ pad) mod 4 = 0"
      using 2 by (simp add: mod_Suc)
    ultimately show ?thesis
      using 2 cs by (simp add: strip_padding_def del: length_append)
  next
    case 3
    have "length (cs @ pad) mod 4 = 0"
      using 3 by (simp add: mod_Suc)
    then show ?thesis
      using 3 by (simp add: strip_padding_def del: length_append)
  qed
qed

lemma those_index_of:
  "distinct xs \<Longrightarrow> \<forall>s \<in> set ss. s < length xs \<Longrightarrow>
   those (map (index_of xs) (map (\<lambda>s. xs ! s) ss)) = Some ss"
  by (induction ss) (simp_all add: index_of_nth)

lemma atob_btoa: "atob (btoa binary) = Inr binary"
proof -
  let ?bytes = "map of_char binary :: nat list"
  let ?cs = "map (\<lambda>s. b64_alphabet ! s) (btoa_sextets ?bytes)"
  have bytes: "\<forall>b \<in> set ?bytes. b < 256"
    by auto
  have sx: "\<forall>s \<in> set (btoa_sextets ?bytes). s < 64"
    by (rule btoa_sextets_bound [OF bytes])
  have cs_alpha: "set ?cs \<subseteq> set b64_alphabet"
    using sx by (auto simp: b64_alphabet_length)
  have pad: "set (btoa_padding ?bytes) \<subseteq> {CHR ''=''}"
    using btoa_shape [of ?bytes] by auto
  have nows: "\<not> ascii_whitespace c" if "c \<in> set (btoa binary)" for c
  proof -
    have "c \<in> set b64_alphabet \<or> c = CHR ''=''"
      using that cs_alpha pad by (auto simp: btoa_def Let_def)
    then show ?thesis
      using b64_alphabet_no_whitespace by (auto simp: ascii_whitespace_def)
  qed
  then have f: "filter (\<lambda>c. \<not> ascii_whitespace c) (btoa binary) = btoa binary"
    by (simp add: filter_id_conv)
  have nopad: "CHR ''='' \<notin> set ?cs"
    using cs_alpha b64_alphabet_no_padding by blast
  have strip: "strip_padding (btoa binary) = ?cs"
    unfolding btoa_def Let_def
    by (rule strip_padding_body [OF nopad]) (use btoa_shape [of ?bytes] in simp)
  have len: "length ?cs mod 4 \<noteq> 1"
    using btoa_shape [of ?bytes] by auto
  have dec: "those (map (index_of b64_alphabet) ?cs) = Some (btoa_sextets ?bytes)"
    using sx by (intro those_index_of b64_alphabet_distinct) (simp add: b64_alphabet_length)
  have "map char_of (atob_groups (btoa_sextets ?bytes)) = binary"
    by (simp add: atob_groups_sextets [OF bytes] comp_def)
  then show ?thesis
    using len by (simp add: atob_def f strip dec Let_def del: length_map map_map)
qed

lemma byte_mod: "(word_of_nat (unat (x :: uint8) mod 256) :: uint8) = x"
proof -
  have "unat x < 256"
    using unsigned_less [of x] by simp
  then show ?thesis
    by simp
qed

lemma decodeBase64_arrayBufferToBase64: "decodeBase64 (arrayBufferToBase64 buffer) = Inr buffer"
proof -
  have "arrayBufferToBase64_loop buffer (length buffer) 0 [] = map (\<lambda>b. char_of (unat b)) buffer"
    using arrayBufferToBase64_loop_append [of 0 buffer "[]"] by simp
  moreover have "decodeBase64_loop (map (\<lambda>b. char_of (unat b)) buffer) (length buffer) 0
      (replicate (length buffer) 0) = buffer"
    using decodeBase64_loop_map [of "map (\<lambda>b. char_of (unat b)) buffer"]
    by (simp add: comp_def byte_mod)
  ultimately show ?thesis
    by (simp add: decodeBase64_def arrayBufferToBase64_def atob_btoa Let_def)
qed

lemma pcm_scale_range: "- 32768 \<le> pcm_scale x \<and> pcm_scale x \<le> 32767"
  by (auto simp: pcm_scale_def Let_def max_def min_def)

lemma trunc_pcm_scale_range: "- 32768 \<le> trunc (pcm_scale x) \<and> trunc (pcm_scale x) \<le> 32767"
proof -
  have "- 32768 \<le> pcm_scale x" "pcm_scale x \<le> 32767"
    using pcm_scale_range [of x] by simp_all
  then have "- 32768 \<le> \<lceil>pcm_scale x\<rceil>" "\<lfloor>pcm_scale x\<rfloor> \<le> 32767"
    "- 32768 \<le> \<lfloor>pcm_scale x\<rfloor>" "\<lceil>pcm_scale x\<rceil> \<le> 32767"
    by linarith+
  then show ?thesis
    by (simp add: trunc_def)
qed

lemma sint_ToInt16_pcm_scale: "sint (ToInt16 (pcm_scale x)) = trunc (pcm_scale x)"
proof -
  have "- (2 ^ 15) \<le> trunc (pcm_scale x)" "trunc (pcm_scale x) < 2 ^ 15"
    using trunc_pcm_scale_range [of x] by simp_all
  then show ?thesis
    unfolding ToInt16_def by (simp add: signed_of_int signed_take_bit_int_eq_self)
qed

lemma quantization_negative:
  assumes "- 1 \<le> x" "x < 0"
  shows "x \<le> real_of_int (trunc (pcm_scale x)) / 32768"
    and "real_of_int (trunc (pcm_scale x)) / 32768 < x + 1 / 32768"
proof -
  have p: "pcm_scale x = x * 32768"
    using assms by (simp add: pcm_scale_def Let_def max_def min_def)
  have t: "trunc (pcm_scale x) = \<lceil>x * 32768\<rceil>"
    using assms by (simp add: trunc_def p)
  have "x * 32768 \<le> real_of_int \<lceil>x * 32768\<rceil>" "real_of_int \<lceil>x * 32768\<rceil> < x * 32768 + 1"
    by linarith+
  then show "x \<le> real_of_int (trunc (pcm_scale x)) / 32768"
    and "real_of_int (trunc (pcm_scale x)) / 32768 < x + 1 / 32768"
    by (simp_all add: t field_simps)
qed

lemma quantization_nonnegative:
  assumes "0 \<le> x" "x \<le> 1"
  shows "x - (x + 1) / 32768 < real_of_int (trunc (pcm_scale x)) / 32768"
    and "real_of_int (trunc (pcm_scale x)) / 32768 \<le> x - x / 32768"
proof -
  have p: "pcm_scale x = x * 32767"
    using assms by (simp add: pcm_scale_def Let_def max_def min_def)
  have t: "trunc (pcm_scale x) = \<lfloor>x * 32767\<rfloor>"
    using assms by (simp add: trunc_def p)
  have "x * 32767 - 1 < real_of_int \<lfloor>x * 32767\<rfloor>" "real_of_int \<lfloor>x * 32767\<rfloor> \<le> x * 32767"
    by linarith+
  then show "x - (x + 1) / 32768 < real_of_int (trunc (pcm_scale x)) / 32768"
    and "real_of_int (trunc (pcm_scale x)) / 32768 \<le> x - x / 32768"
    by (simp_all add: t field_simps)
qed

lemma quantization_bound:
  assumes "- 1 \<le> x" "x \<le> 1"
  shows "\<bar>real_of_int (sint (ToInt16 (pcm_scale x))) / 32768 - x\<bar> < 1 / 16384"
proof (cases "x < 0")
  case True
  then show ?thesis
    using quantization_negative [of x] assms by (simp add: sint_ToInt16_pcm_scale abs_if)
next
  case False
  then have "0 \<le> x" by simp
  from quantization_nonnegative [OF this assms(2)] assms show ?thesis
    by (simp add: sint_ToInt16_pcm_scale abs_if field_simps)
qed

lemma decodeAudioData_inner_length:
  "length (decodeAudioData_inner d c F ch i chan) = length chan"
proof (induction d c F ch i chan rule: decodeAudioData_inner.induct)
  case (1 d c F ch i chan)
  show ?case
  proof (cases "real i < F")
    case True
    then have "length (decodeAudioData_inner d c F ch i chan) =
        length (ta_set chan i (decode_sample d (i * c + ch)))"
      using "1.IH" by (subst decodeAudioData_inner.simps) simp
    then show ?thesis by (simp add: ta_set_def)
  next
    case False
    then show ?thesis by (subst decodeAudioData_inner.simps) simp
  qed
qed

lemma decodeAudioData_inner_nth:
  "k < length chan \<Longrightarrow> real (length chan) \<le> F \<Longrightarrow>
   decodeAudioData_inner d c F ch i chan ! k =
     (if i \<le> k then decode_sample d (k * c + ch) else chan ! k)"
proof (induction d c F ch i chan rule: decodeAudioData_inner.induct)
  case (1 d c F ch i chan)
  show ?case
  proof (cases "real i < F")
    case True
    let ?r = "ta_set chan i (decode_sample d (i * c + ch))"
    have len: "length ?r = length chan"
      by (simp add: ta_set_def)
    have "decodeAudioData_inner d c F ch i chan ! k = decodeAudioData_inner d c F ch (i + 1) ?r ! k"
      using True by (subst decodeAudioData_inner.simps) simp
    also have "\<dots> = (if i + 1 \<le> k then decode_sample d (k * c + ch) else ?r ! k)"
      using True len "1.prems" by (intro "1.IH") auto
    finally show ?thesis
      using "1.prems" by (cases "i = k") (auto simp: ta_set_def)
  next
    case False
    have "real k < F"
      using "1.prems" by simp
    then have "\<not> i \<le> k"
      using False by (meson le_less_trans of_nat_le_iff)
    then show ?thesis
      using False by (subst decodeAudioData_inner.simps) simp
  qed
qed

lemma decodeAudioData_outer_fields:
  "numberOfChannels (decodeAudioData_outer d c F ch buffer) = numberOfChannels buffer \<and>
   frames (decodeAudioData_outer d c F ch buffer) = frames buffer \<and>
   sampleRate (decodeAudioData_outer d c F ch buffer) = sampleRate buffer \<and>
   length (channelData (decodeAudioData_outer d c F ch buffer)) = length (channelData buffer)"
proof (induction d c F ch buffer rule: decodeAudioData_outer.induct)
  case (1 d c F ch buffer)
  show ?case
  proof (cases "ch < c")
    case True
    then show ?thesis
      using "1.IH" by (subst (1 2 3 4) decodeAudioData_outer.simps) simp
  next
    case False
    then show ?thesis by (subst (1 2 3 4) decodeAudioData_outer.simps) simp
  qed
qed

lemma decodeAudioData_outer_channel:
  "k < length (channelData buffer) \<Longrightarrow>
   channelData (decodeAudioData_outer d c F ch buffer) ! k =
     (if ch \<le> k \<and> k < c then decodeAudioData_inner d c F k 0 (channelData buffer ! k)
      else channelData buffer ! k)"
proof (induction d c F ch buffer rule: decodeAudioData_outer.induct)
  case (1 d c F ch buffer)
  show ?case
  proof (cases "ch < c")
    case True
    let ?b = "buffer\<lparr>channelData := (channelData buffer)
        [ch := decodeAudioData_inner d c F ch 0 (channelData buffer ! ch)]\<rparr>"
    have "channelData (decodeAudioData_outer d c F ch buffer) ! k =
        channelData (decodeAudioData_outer d c F (ch + 1) ?b) ! k"
      using True by (subst decodeAudioData_outer.simps) simp
    also have "\<dots> = (if ch + 1 \<le> k \<and> k < c
        then decodeAudioData_inner d c F k 0 (channelData ?b ! k) else channelData ?b ! k)"
      using True "1.prems" by (intro "1.IH") auto
    finally show ?thesis
      using "1.prems" True by (cases "ch = k") auto
  next
    case False
    then show ?thesis
      by (subst decodeAudioData_outer.simps) auto
  qed
qed

lemma ta_get_nat: "ta_get xs (int j) = (if j < length xs then Some (xs ! j) else None)"
  by (simp add: ta_get_def)

lemma length_int16_view: "length (int16_view bytes) = length bytes div 2"
  by (induction bytes rule: int16_view.induct) simp_all

lemma decodeAudioData_odd:
  "odd (length data) \<Longrightarrow> decodeAudioData data rate c = Inl RangeError"
  by (simp add: decodeAudioData_def new_Int16Array_def odd_iff_mod_2_eq_one)

lemma decodeAudioData_short:
  "even (length data) \<Longrightarrow> length data div 2 < c \<or> c = 0 \<Longrightarrow>
   decodeAudioData data rate c = Inl NotSupportedError"
proof -
  assume e: "even (length data)" and s: "length data div 2 < c \<or> c = 0"
  have "nat \<lfloor>real (length data div 2) / real c\<rfloor> = length data div 2 div c"
    by (simp add: floor_divide_of_nat_eq)
  moreover have "length data div 2 div c = 0"
    using s by auto
  ultimately show ?thesis
    using e by (simp add: decodeAudioData_def new_Int16Array_def createBuffer_def
        length_int16_view Let_def del: div_eq_0_iff)
qed

lemma decodeAudioData_frames:
  assumes "even (length data)" "0 < c" "c \<le> length data div 2" "0 < rate"
  shows "decodeAudioData data rate c =
         Inr \<lparr>numberOfChannels = c, frames = length data div 2 div c, sampleRate = rate,
              channelData = map (\<lambda>ch. map (\<lambda>i. Num (real_of_int (sint (int16_view data ! (i * c + ch))) / 32768))
                                   [0 ..< length data div 2 div c]) [0 ..< c]\<rparr>"
proof -
  let ?d = "int16_view data"
  let ?n = "length data div 2"
  let ?F = "real ?n / real c"
  let ?L = "?n div c"
  have L: "nat \<lfloor>?F\<rfloor> = ?L"
    by (simp add: floor_divide_of_nat_eq)
  have Lpos: "0 < ?L"
    using assms by (simp add: div_greater_zero_iff)
  have LF: "real ?L \<le> ?F"
    using L by (metis floor_divide_of_nat_eq of_int_floor_le of_int_of_nat_eq)
  let ?b0 = "\<lparr>numberOfChannels = c, frames = ?L, sampleRate = rate,
              channelData = replicate c (replicate ?L (Num 0))\<rparr>"
  have cb: "createBuffer c ?F rate = Inr ?b0"
    using assms Lpos by (simp add: createBuffer_def L)
  let ?out = "decodeAudioData_outer ?d c ?F 0 ?b0"
  have dec: "decodeAudioData data rate c = Inr ?out"
    using assms(1) by (simp add: decodeAudioData_def new_Int16Array_def length_int16_view cb Let_def)
  have idx: "i * c + ch < length ?d" if "i < ?L" "ch < c" for i ch
  proof -
    have "i * c + ch < (i + 1) * c"
      using that by simp
    also have "\<dots> \<le> ?L * c"
      using that by (intro mult_le_mono1) simp
    also have "\<dots> \<le> ?n"
      by simp
    finally show ?thesis
      by (simp add: length_int16_view)
  qed
  have chan: "channelData ?out ! ch =
      map (\<lambda>i. Num (real_of_int (sint (?d ! (i * c + ch))) / 32768)) [0 ..< ?L]" if "ch < c" for ch
  proof -
    have "channelData ?out ! ch = decodeAudioData_inner ?d c ?F ch 0 (replicate ?L (Num 0))"
      using that decodeAudioData_outer_channel [of ch ?b0 ?d c ?F 0] by simp
    also have "\<dots> = map (\<lambda>i. Num (real_of_int (sint (?d ! (i * c + ch))) / 32768)) [0 ..< ?L]"
    proof (rule nth_equalityI)
      show "length (decodeAudioData_inner ?d c ?F ch 0 (replicate ?L (Num 0))) =
          length (map (\<lambda>i. Num (real_of_int (sint (?d ! (i * c + ch))) / 32768)) [0 ..< ?L])"
        by (simp add: decodeAudioData_inner_length)
    next
      fix i
      assume "i < length (decodeAudioData_inner ?d c ?F ch 0 (replicate ?L (Num 0)))"
      then have i: "i < ?L"
        by (simp add: decodeAudioData_inner_length)
      have "decodeAudioData_inner ?d c ?F ch 0 (replicate ?L (Num 0)) ! i =
          decode_sample ?d (i * c + ch)"
        using i LF decodeAudioData_inner_nth [of i "replicate ?L (Num 0)" ?F ?d c ch 0] by simp
      also have "\<dots> = Num (real_of_int (sint (?d ! (i * c + ch))) / 32768)"
        using idx [OF i that] by (simp only: decode_sample_def ta_get_nat) simp
      finally show "decodeAudioData_inner ?d c ?F ch 0 (replicate ?L (Num 0)) ! i =
          map (\<lambda>i. Num (real_of_int (sint (?d ! (i * c + ch))) / 32768)) [0 ..< ?L] ! i"
        using i by simp
    qed
    finally show ?thesis .
  qed
  have f: "numberOfChannels ?out = c" "frames ?out = ?L" "sampleRate ?out = rate"
    "length (channelData ?out) = c"
    using decodeAudioData_outer_fields [of ?d c ?F 0 ?b0] by simp_all
  have "channelData ?out = map (\<lambda>ch. map (\<lambda>i. Num (real_of_int (sint (?d ! (i * c + ch))) / 32768))
      [0 ..< ?L]) [0 ..< c]"
    by (rule nth_equalityI) (simp_all add: f chan)
  then have "?out = \<lparr>numberOfChannels = c, frames = ?L, sampleRate = rate,
      channelData = map (\<lambda>ch. map (\<lambda>i. Num (real_of_int (sint (?d ! (i * c + ch))) / 32768))
        [0 ..< ?L]) [0 ..< c]\<rparr>"
    using f by (intro audio_buffer.equality) simp_all
  then show ?thesis
    using dec by simp
qed

lemma createPcmBlob_closed:
  "createPcmBlob data =
     \<lparr>blob_data = arrayBufferToBase64 (buffer_of_Int16Array (map (\<lambda>x. ToInt16 (pcm_scale x)) data)),
      mimeType = ''audio/pcm;rate=16000''\<rparr>"
  by (simp add: createPcmBlob_def Let_def createPcmBlob_loop_map)

lemma arrayBufferToBase64_closed:
  "arrayBufferToBase64 buffer = btoa (map (\<lambda>b. char_of (unat b)) buffer)"
  using arrayBufferToBase64_loop_append [of 0 buffer "[]"] by (simp add: arrayBufferToBase64_def)

lemma int16_bytes_little_endian:
  "uint (int16_bytes w ! 0) = sint w mod 256 \<and> uint (int16_bytes w ! 1) = sint w div 256 mod 256"
proof -
  have u: "uint w = sint w mod 65536"
    using uint_sint [of w] by (simp add: take_bit_eq_mod)
  have "uint (ucast w :: uint8) = uint w mod 256"
    by (simp add: unsigned_ucast_eq take_bit_eq_mod)
  also have "\<dots> = sint w mod 256"
    unfolding u by (simp add: mod_mod_cancel)
  finally have lo: "uint (ucast w :: uint8) = sint w mod 256" .
  have "uint (ucast (drop_bit 8 w) :: uint8) = uint (drop_bit 8 w) mod 256"
    by (simp add: unsigned_ucast_eq take_bit_eq_mod)
  also have "\<dots> = uint w div 256 mod 256"
    by (simp add: drop_bit_eq_div uint_div_distrib)
  also have "\<dots> = sint w div 256 mod 256"
  proof -
    have "sint w mod (256 * 256) = 256 * (sint w div 256 mod 256) + sint w mod 256"
      by (rule zmod_zmult2_eq) simp
    then have "sint w mod 65536 div 256 = sint w div 256 mod 256"
      by simp
    then show ?thesis by (simp add: u)
  qed
  finally have hi: "uint (ucast (drop_bit 8 w) :: uint8) = sint w div 256 mod 256" .
  show ?thesis
    using lo hi by (simp add: int16_bytes_def)
qed

lemma roundtrip_decode:
  assumes "data \<noteq> []" and "0 < rate"
  shows "decodeBase64 (blob_data (createPcmBlob data)) =
           Inr (buffer_of_Int16Array (map (\<lambda>x. ToInt16 (pcm_scale x)) data))"
    and "decodeAudioData (buffer_of_Int16Array (map (\<lambda>x. ToInt16 (pcm_scale x)) data)) rate 1 =
           Inr \<lparr>numberOfChannels = 1, frames = length data, sampleRate = rate,
                channelData = [map (\<lambda>x. Num (real_of_int (sint (ToInt16 (pcm_scale x))) / 32768)) data]\<rparr>"
proof -
  let ?ws = "map (\<lambda>x. ToInt16 (pcm_scale x)) data"
  let ?bytes = "buffer_of_Int16Array ?ws"
  show "decodeBase64 (blob_data (createPcmBlob data)) = Inr ?bytes"
    by (simp add: createPcmBlob_closed decodeBase64_arrayBufferToBase64)
  have len: "length ?bytes = 2 * length data"
    by (simp add: length_buffer_of_Int16Array)
  have pos: "0 < length data"
    using assms(1) by simp
  have "decodeAudioData ?bytes rate 1 =
      Inr \<lparr>numberOfChannels = 1, frames = length ?bytes div 2 div 1, sampleRate = rate,
           channelData = map (\<lambda>ch. map (\<lambda>i. Num (real_of_int (sint (int16_view ?bytes ! (i * 1 + ch))) / 32768))
             [0 ..< length ?bytes div 2 div 1]) [0 ..< 1]\<rparr>"
    using pos assms(2) by (intro decodeAudioData_frames) (simp_all add: len Suc_le_eq)
  moreover have "map (\<lambda>i. Num (real_of_int (sint (?ws ! i)) / 32768)) [0 ..< length data] =
      map (\<lambda>x. Num (real_of_int (sint (ToInt16 (pcm_scale x))) / 32768)) data"
    by (rule nth_equalityI) simp_all
  ultimately show "decodeAudioData ?bytes rate 1 =
      Inr \<lparr>numberOfChannels = 1, frames = length data, sampleRate = rate,
           channelData = [map (\<lambda>x. Num (real_of_int (sint (ToInt16 (pcm_scale x))) / 32768)) data]\<rparr>"
    by (simp add: len int16_view_buffer)
qed

section \<open>Claims about the codec\<close>

text \<open>
  C3 (as amended). For every non-empty float buffer whose samples all lie in \<open>[-1, 1]\<close>,
  encoding it with \<^verbatim>\<open>createPcmBlob\<close> and decoding the result with \<^verbatim>\<open>decodeBase64\<close>
  and \<^verbatim>\<open>decodeAudioData\<close> yields a mono buffer of the same length in which every sample
  is within \<open>1 / 16384\<close> (that is \<open>2 / 32768\<close>) of the original, and within
  \<open>1 / 32768\<close> of it where the original is negative. Non-negative samples are scaled by
  32767 on encoding and divided by 32768 on decoding, which adds up to \<open>x / 32768\<close> to
  the truncation error.
\<close>

theorem codec_roundtrip_bound:
  assumes "data \<noteq> []" and "\<forall>x \<in> set data. - 1 \<le> x \<and> x \<le> 1"
  shows "\<exists>bytes buffer out.
           decodeBase64 (blob_data (createPcmBlob data)) = Inr bytes \<and>
           decodeAudioData bytes 24000 1 = Inr buffer \<and>
           channelData buffer = [out] \<and> length out = length data \<and>
           (\<forall>i < length data. \<exists>y. out ! i = Num y \<and> \<bar>y - data ! i\<bar> < 1 / 16384 \<and>
              (data ! i < 0 \<longrightarrow> \<bar>y - data ! i\<bar> < 1 / 32768))"
proof -
  let ?out = "map (\<lambda>x. Num (real_of_int (sint (ToInt16 (pcm_scale x))) / 32768)) data"
  have q: "\<exists>y. ?out ! i = Num y \<and> \<bar>y - data ! i\<bar> < 1 / 16384 \<and>
      (data ! i < 0 \<longrightarrow> \<bar>y - data ! i\<bar> < 1 / 32768)" if "i < length data" for i
  proof -
    have r: "- 1 \<le> data ! i" "data ! i \<le> 1"
      using assms(2) that by simp_all
    have "\<bar>real_of_int (sint (ToInt16 (pcm_scale (data ! i)))) / 32768 - data ! i\<bar> < 1 / 16384"
      using quantization_bound [OF r] .
    moreover have "\<bar>real_of_int (sint (ToInt16 (pcm_scale (data ! i)))) / 32768 - data ! i\<bar> < 1 / 32768"
      if "data ! i < 0"
      using quantization_negative [OF r(1) that] by (simp add: sint_ToInt16_pcm_scale abs_if)
    ultimately show ?thesis
      using that
      by (intro exI [of _ "real_of_int (sint (ToInt16 (pcm_scale (data ! i)))) / 32768"]) simp
  qed
  let ?bytes = "buffer_of_Int16Array (map (\<lambda>x. ToInt16 (pcm_scale x)) data)"
  let ?buffer = "\<lparr>numberOfChannels = 1, frames = length data, sampleRate = 24000,
      channelData = [?out]\<rparr>"
  have 1: "decodeBase64 (blob_data (createPcmBlob data)) = Inr ?bytes"
    and 2: "decodeAudioData ?bytes 24000 1 = Inr ?buffer"
    using roundtrip_decode [OF assms(1), of 24000] by simp_all
  have 3: "channelData ?buffer = [?out]" and 4: "length ?out = length data"
    by simp_all
  have 5: "\<forall>i < length data. \<exists>y. ?out ! i = Num y \<and> \<bar>y - data ! i\<bar> < 1 / 16384 \<and>
      (data ! i < 0 \<longrightarrow> \<bar>y - data ! i\<bar> < 1 / 32768)"
    using q by blast
  show ?thesis
    using 1 2 3 4 5 by blast
qed

theorem codec_roundtrip_bound_witness:
  "[65535 / 65536, - 1 / 3 :: real] \<noteq> [] \<and>
   - 1 \<le> (65535 / 65536 :: real) \<and> (65535 / 65536 :: real) \<le> 1 \<and>
   - 1 \<le> (- 1 / 3 :: real) \<and> (- 1 / 3 :: real) \<le> 1 \<and>
   (\<exists>bytes buffer out.
      decodeBase64 (blob_data (createPcmBlob [65535 / 65536, - 1 / 3])) = Inr bytes \<and>
      decodeAudioData bytes 24000 1 = Inr buffer \<and> channelData buffer = [out] \<and> length out = 2 \<and>
      (\<exists>y. out ! 0 = Num y \<and> \<bar>y - 65535 / 65536\<bar> < 1 / 16384) \<and>
      (\<exists>y. out ! 1 = Num y \<and> \<bar>y - (- 1 / 3)\<bar> < 1 / 32768))"
proof -
  have h1: "[65535 / 65536, - 1 / 3 :: real] \<noteq> []"
    by simp
  have h2: "\<forall>x \<in> set [65535 / 65536, - 1 / 3 :: real]. - 1 \<le> x \<and> x \<le> 1"
    by simp
  obtain bytes buffer out where
    r: "decodeBase64 (blob_data (createPcmBlob [65535 / 65536, - 1 / 3])) = Inr bytes"
      "decodeAudioData bytes 24000 1 = Inr buffer" "channelData buffer = [out]"
      "length out = length [65535 / 65536, - 1 / 3 :: real]"
    and b: "\<forall>i < length [65535 / 65536, - 1 / 3 :: real].
      \<exists>y. out ! i = Num y \<and> \<bar>y - [65535 / 65536, - 1 / 3] ! i\<bar> < 1 / 16384 \<and>
        ([65535 / 65536, - 1 / 3 :: real] ! i < 0 \<longrightarrow> \<bar>y - [65535 / 65536, - 1 / 3] ! i\<bar> < 1 / 32768)"
    using codec_roundtrip_bound [OF h1 h2] by blast
  have "\<exists>y. out ! 0 = Num y \<and> \<bar>y - 65535 / 65536\<bar> < 1 / 16384"
    using b [rule_format, of 0] by auto
  moreover have "\<exists>y. out ! 1 = Num y \<and> \<bar>y - (- 1 / 3)\<bar> < 1 / 32768"
    using b [rule_format, of 1] by auto
  ultimately show ?thesis
    using r by (intro conjI exI [of _ bytes] exI [of _ buffer] exI [of _ out]) simp_all
qed

text \<open>
  C3 as the specification states it fails for the one-sample buffer \<open>65535 / 65536\<close>
  (a value that single precision represents exactly): it is encoded as 32766 and decoded as
  \<open>16383 / 16384\<close>, which is \<open>1.5 / 32768\<close> away.
\<close>

theorem codec_roundtrip_counterexample:
  "decodeBase64 (blob_data (createPcmBlob [65535 / 65536])) = Inr [254, 127] \<and>
   decodeAudioData [254, 127] 24000 1 =
     Inr \<lparr>numberOfChannels = 1, frames = 1, sampleRate = 24000,
          channelData = [[Num (16383 / 16384)]]\<rparr> \<and>
   \<not> \<bar>16383 / 16384 - 65535 / 65536\<bar> \<le> (1 / 32768 :: real)"
proof -
  have s: "pcm_scale (65535 / 65536) = 2147385345 / 65536"
    by (simp add: pcm_scale_def)
  have "\<lfloor>2147385345 / 65536 :: real\<rfloor> = 32766"
    by (simp add: floor_eq_iff)
  then have w: "ToInt16 (pcm_scale (65535 / 65536)) = 32766"
    by (simp add: s ToInt16_def trunc_def)
  have b: "buffer_of_Int16Array [32766] = [254, 127]"
    by (simp add: buffer_of_Int16Array_def int16_bytes_def drop_bit_eq_div)
  have 1: "decodeBase64 (blob_data (createPcmBlob [65535 / 65536])) = Inr [254, 127]"
    using roundtrip_decode(1) [of "[65535 / 65536]" 24000] by (simp add: w b)
  have 2: "decodeAudioData [254, 127] 24000 1 =
     Inr \<lparr>numberOfChannels = 1, frames = 1, sampleRate = 24000,
          channelData = [[Num (16383 / 16384)]]\<rparr>"
    using roundtrip_decode(2) [of "[65535 / 65536]" 24000] by (simp add: w b)
  show ?thesis
    using 1 2 by simp
qed

text \<open>
  C4. \<^verbatim>\<open>createPcmBlob\<close> clamps each sample to \<open>[-1, 1]\<close>, multiplies a negative value by
  32768 and a non-negative one by 32767 and stores the product, its fraction dropped, as a
  16-bit signed integer (the product is in range, so nothing wraps); each integer gives two
  bytes, the low byte first; the bytes are wrapped in base64 text (letters, digits,
  \<^verbatim>\<open>+\<close>, \<^verbatim>\<open>/\<close> and \<^verbatim>\<open>=\<close> only), from which \<^verbatim>\<open>atob\<close> recovers them, with the fixed
  mime type \<^verbatim>\<open>audio/pcm;rate=16000\<close>.
\<close>

theorem createPcmBlob_encoding:
  "createPcmBlob data =
     \<lparr>blob_data = btoa (map (\<lambda>b. char_of (unat b))
                    (concat (map (\<lambda>x. int16_bytes (ToInt16 (pcm_scale x))) data))),
      mimeType = ''audio/pcm;rate=16000''\<rparr> \<and>
   - 1 \<le> max (- 1) (min 1 x) \<and> max (- 1) (min 1 x) \<le> 1 \<and>
   sint (ToInt16 (pcm_scale x)) =
     (if max (- 1) (min 1 x) < 0 then \<lceil>max (- 1) (min 1 x) * 32768\<rceil>
      else \<lfloor>max (- 1) (min 1 x) * 32767\<rfloor>) \<and>
   length (int16_bytes w) = 2 \<and>
   uint (int16_bytes w ! 0) = sint w mod 256 \<and>
   uint (int16_bytes w ! 1) = sint w div 256 mod 256 \<and>
   set (blob_data (createPcmBlob data)) \<subseteq> insert (CHR ''='') (set b64_alphabet) \<and>
   atob (blob_data (createPcmBlob data)) =
     Inr (map (\<lambda>b. char_of (unat b)) (concat (map (\<lambda>x. int16_bytes (ToInt16 (pcm_scale x))) data)))"
proof -
  have 1: "createPcmBlob data =
     \<lparr>blob_data = btoa (map (\<lambda>b. char_of (unat b))
                    (concat (map (\<lambda>x. int16_bytes (ToInt16 (pcm_scale x))) data))),
      mimeType = ''audio/pcm;rate=16000''\<rparr>"
    by (simp add: createPcmBlob_closed arrayBufferToBase64_closed buffer_of_Int16Array_def comp_def)
  have 2: "sint (ToInt16 (pcm_scale x)) =
     (if max (- 1) (min 1 x) < 0 then \<lceil>max (- 1) (min 1 x) * 32768\<rceil>
      else \<lfloor>max (- 1) (min 1 x) * 32767\<rfloor>)"
    unfolding sint_ToInt16_pcm_scale
    by (simp add: trunc_def pcm_scale_def Let_def mult_less_0_iff)
  have 3: "length (int16_bytes w) = 2"
    by (simp add: int16_bytes_def)
  have 4: "atob (blob_data (createPcmBlob data)) =
     Inr (map (\<lambda>b. char_of (unat b)) (concat (map (\<lambda>x. int16_bytes (ToInt16 (pcm_scale x))) data)))"
    unfolding 1 by (simp add: atob_btoa)
  have 5: "set (blob_data (createPcmBlob data)) \<subseteq> insert (CHR ''='') (set b64_alphabet)"
    unfolding 1 using btoa_chars by simp
  show ?thesis
    using 1 2 3 4 5 int16_bytes_little_endian [of w] by simp
qed

theorem createPcmBlob_encoding_witness:
  "createPcmBlob [65535 / 65536, - 1 / 2, 2, - 3] =
     \<lparr>blob_data = ''/n8AwP9/AIA='', mimeType = ''audio/pcm;rate=16000''\<rparr>"
proof -
  have s: "pcm_scale (65535 / 65536) = 2147385345 / 65536" "pcm_scale (- (1 / 2)) = - 16384"
    "pcm_scale 2 = 32767" "pcm_scale (- 3) = - 32768"
    by (simp_all add: pcm_scale_def)
  have "\<lfloor>2147385345 / 65536 :: real\<rfloor> = 32766"
    by (simp add: floor_eq_iff)
  then have w: "ToInt16 (2147385345 / 65536) = 32766" "ToInt16 (- 16384) = - 16384"
    "ToInt16 32767 = 32767" "ToInt16 (- 32768) = - 32768"
    by (simp_all add: ToInt16_def trunc_def)
  have b: "int16_bytes 32766 = [254, 127]" "int16_bytes (- 16384) = [0, 192]"
    "int16_bytes 32767 = [255, 127]" "int16_bytes (- 32768) = [0, 128]"
    by (simp_all add: int16_bytes_def drop_bit_eq_div)
  have "btoa (map (\<lambda>b. char_of (unat b)) [254, 127, 0, 192, 255, 127, 0, 128 :: uint8]) = ''/n8AwP9/AIA=''"
    by (simp add: btoa_def b64_alphabet_def Let_def)
  then show ?thesis
    using createPcmBlob_encoding [of "[65535 / 65536, - 1 / 2, 2, - 3]"]
    by (simp add: s w b)
qed

text \<open>
  C5 (as amended). A byte buffer of odd length is not truncated: the \<^verbatim>\<open>Int16Array\<close> view
  cannot be built and \<^verbatim>\<open>decodeAudioData\<close> raises a RangeError. For an even byte count
  whose sample count is not a multiple of the channel count the decoder does not raise: it
  returns \<open>\<lfloor>samples / channels\<rfloor>\<close> frames per channel, de-interleaved, and drops the
  trailing partial frame, provided that this number of frames is at least one; with no
  whole frame \<^verbatim>\<open>createBuffer\<close> raises NotSupportedError.
\<close>

theorem decodeAudioData_malformed:
  "(odd (length data) \<longrightarrow> decodeAudioData data rate numChannels = Inl RangeError) \<and>
   (even (length data) \<and> (numChannels = 0 \<or> length data div 2 < numChannels) \<longrightarrow>
      decodeAudioData data rate numChannels = Inl NotSupportedError) \<and>
   (even (length data) \<and> 0 < numChannels \<and> numChannels \<le> length data div 2 \<and> 0 < rate \<longrightarrow>
      (\<exists>buffer. decodeAudioData data rate numChannels = Inr buffer \<and>
         numberOfChannels buffer = numChannels \<and>
         frames buffer = length data div 2 div numChannels \<and>
         length (channelData buffer) = numChannels \<and>
         (\<forall>ch < numChannels. length (channelData buffer ! ch) = frames buffer \<and>
            (\<forall>i < frames buffer. channelData buffer ! ch ! i =
               Num (real_of_int (sint (int16_view data ! (i * numChannels + ch))) / 32768)))))"
proof (intro conjI impI)
  assume "odd (length data)"
  then show "decodeAudioData data rate numChannels = Inl RangeError"
    by (rule decodeAudioData_odd)
next
  assume "even (length data) \<and> (numChannels = 0 \<or> length data div 2 < numChannels)"
  then show "decodeAudioData data rate numChannels = Inl NotSupportedError"
    using decodeAudioData_short [of data numChannels rate] by blast
next
  assume a: "even (length data) \<and> 0 < numChannels \<and> numChannels \<le> length data div 2 \<and> 0 < rate"
  let ?L = "length data div 2 div numChannels"
  let ?buffer = "\<lparr>numberOfChannels = numChannels, frames = ?L, sampleRate = rate,
      channelData = map (\<lambda>ch. map (\<lambda>i. Num (real_of_int (sint (int16_view data ! (i * numChannels + ch))) / 32768))
        [0 ..< ?L]) [0 ..< numChannels]\<rparr>"
  have "decodeAudioData data rate numChannels = Inr ?buffer"
    using a by (intro decodeAudioData_frames) simp_all
  moreover have "numberOfChannels ?buffer = numChannels" "frames ?buffer = ?L"
    "length (channelData ?buffer) = numChannels"
    by simp_all
  moreover have "\<forall>ch < numChannels. length (channelData ?buffer ! ch) = frames ?buffer \<and>
      (\<forall>i < frames ?buffer. channelData ?buffer ! ch ! i =
         Num (real_of_int (sint (int16_view data ! (i * numChannels + ch))) / 32768))"
    by simp
  ultimately show "\<exists>buffer. decodeAudioData data rate numChannels = Inr buffer \<and>
      numberOfChannels buffer = numChannels \<and> frames buffer = ?L \<and>
      length (channelData buffer) = numChannels \<and>
      (\<forall>ch < numChannels. length (channelData buffer ! ch) = frames buffer \<and>
         (\<forall>i < frames buffer. channelData buffer ! ch ! i =
            Num (real_of_int (sint (int16_view data ! (i * numChannels + ch))) / 32768)))"
    by blast
qed

theorem decodeAudioData_malformed_witness:
  "odd (length [1, 2, 3 :: uint8]) \<and> decodeAudioData [1, 2, 3] 24000 1 = Inl RangeError \<and>
   even (length ([] :: uint8 list)) \<and> decodeAudioData [] 24000 1 = Inl NotSupportedError \<and>
   even (length [0, 64, 0, 192, 1, 0 :: uint8]) \<and>
   (\<exists>buffer. decodeAudioData [0, 64, 0, 192, 1, 0] 24000 2 = Inr buffer \<and>
      frames buffer = 1 \<and> length (channelData buffer) = 2 \<and>
      channelData buffer ! 0 ! 0 = Num (1 / 2) \<and> channelData buffer ! 1 ! 0 = Num (- 1 / 2))"
proof -
  have v: "int16_view [0, 64, 0, 192, 1, 0] = [16384, - 16384, 1]"
    by simp
  obtain buffer where b: "decodeAudioData [0, 64, 0, 192, 1, 0] 24000 2 = Inr buffer"
    "frames buffer = 1" "length (channelData buffer) = 2"
    and c: "\<forall>ch < 2. length (channelData buffer ! ch) = frames buffer \<and>
      (\<forall>i < frames buffer. channelData buffer ! ch ! i =
         Num (real_of_int (sint (int16_view [0, 64, 0, 192, 1, 0 :: uint8] ! (i * 2 + ch))) / 32768))"
    using decodeAudioData_malformed [of "[0, 64, 0, 192, 1, 0]" 24000 2] by auto
  have "channelData buffer ! 0 ! 0 = Num (1 / 2)"
    using c [rule_format, of 0] b(2) by (simp add: v)
  moreover have "channelData buffer ! 1 ! 0 = Num (- 1 / 2)"
    using c [rule_format, of 1] b(2) by (simp add: v)
  ultimately show ?thesis
    using b decodeAudioData_malformed [of "[1, 2, 3]" 24000 1]
      decodeAudioData_malformed [of "[]" 24000 1]
    by simp
qed

text \<open>
  C5 as the specification states it fails for a buffer of three bytes: the result is not
  a one-sample buffer but a RangeError.
\<close>

theorem decodeAudioData_odd_counterexample:
  "decodeAudioData [1, 2, 3] 24000 1 = Inl RangeError"
  by (simp add: decodeAudioData_def new_Int16Array_def)

section \<open>Properties of the playback scheduler\<close>

lemma foldl_update_length:
  "length (foldl (\<lambda>ns r. ns[r := g (ns ! r)]) ns refs) = length ns"
  by (induction refs arbitrary: ns) simp_all

lemma foldl_update_other:
  "r \<notin> set refs \<Longrightarrow> foldl (\<lambda>ns r. ns[r := g (ns ! r)]) ns refs ! r = ns ! r"
  by (induction refs arbitrary: ns) auto

lemma foldl_update_member:
  "distinct refs \<Longrightarrow> r \<in> set refs \<Longrightarrow> r < length ns \<Longrightarrow>
   foldl (\<lambda>ns r. ns[r := g (ns ! r)]) ns refs ! r = g (ns ! r)"
proof (induction refs arbitrary: ns)
  case Nil
  then show ?case by simp
next
  case (Cons a refs)
  show ?case
  proof (cases "a = r")
    case True
    then have "r \<notin> set refs"
      using Cons.prems by simp
    then show ?thesis
      using True Cons.prems by (simp add: foldl_update_other)
  next
    case False
    then show ?thesis
      using Cons by simp
  qed
qed

lemma foldl_stop_nth:
  "r < length ns \<Longrightarrow>
   foldl (\<lambda>ns src. ns[src := stop (ns ! src)]) ns refs ! r =
     (if r \<in> set refs then stop (ns ! r) else ns ! r)"
proof (induction refs arbitrary: ns)
  case Nil
  then show ?case by simp
next
  case (Cons a refs)
  have "stop (stop (ns ! r)) = stop (ns ! r)"
    by (simp add: stop_def)
  then show ?case
    using Cons by (cases "a = r") (auto simp: stop_def)
qed

lemma schedule_playback_fields:
  "outputContext (schedule_playback ctx b s) = outputContext s \<and>
   pitch (schedule_playback ctx b s) = pitch s \<and>
   nextStartTime (schedule_playback ctx b s) =
     (if nextStartTime s < currentTime ctx then currentTime ctx + 0.005 else nextStartTime s) + duration b \<and>
   nodes (schedule_playback ctx b s) =
     nodes s @ [\<lparr>node_context = context_id ctx, node_buffer = b,
                 detune = \<lparr>param_value = pitch s, param_events = []\<rparr>,
                 start_when = Some (if nextStartTime s < currentTime ctx then currentTime ctx + 0.005
                                    else nextStartTime s),
                 stopped = False\<rparr>] \<and>
   audioSources (schedule_playback ctx b s) = set_add (audioSources s) (length (nodes s))"
  by (simp add: schedule_playback_def Let_def)

lemma handle_interruption_fields:
  "outputContext (handle_interruption s) = outputContext s \<and>
   pitch (handle_interruption s) = pitch s \<and>
   audioSources (handle_interruption s) = [] \<and>
   nextStartTime (handle_interruption s) = (case outputContext s of None \<Rightarrow> 0 | Some ctx \<Rightarrow> currentTime ctx) \<and>
   length (nodes (handle_interruption s)) = length (nodes s) \<and>
   (\<forall>r < length (nodes s). nodes (handle_interruption s) ! r =
      (if r \<in> set (audioSources s) then stop (nodes s ! r) else nodes s ! r))"
  by (auto simp: handle_interruption_def Let_def foldl_update_length foldl_stop_nth split: option.splits)

lemma setPitch_fields:
  "pitch (setPitch cents s) = cents \<and>
   outputContext (setPitch cents s) = outputContext s \<and>
   nextStartTime (setPitch cents s) = nextStartTime s \<and>
   audioSources (setPitch cents s) = audioSources s \<and>
   length (nodes (setPitch cents s)) = length (nodes s)"
  by (simp add: setPitch_def Let_def foldl_update_length split: option.splits)

lemma setPitch_inactive:
  "r \<notin> set (audioSources s) \<Longrightarrow> nodes (setPitch cents s) ! r = nodes s ! r"
  by (simp add: setPitch_def Let_def foldl_update_other split: option.splits)

lemma setPitch_active:
  assumes "distinct (audioSources s)" "r \<in> set (audioSources s)" "r < length (nodes s)"
    and "outputContext s = Some ctx"
  shows "nodes (setPitch cents s) ! r = retarget cents (currentTime ctx) (nodes s ! r)"
  using assms by (simp add: setPitch_def Let_def foldl_update_member)

lemma retarget_frame:
  "node_context (retarget cents now n) = node_context n \<and>
   node_buffer (retarget cents now n) = node_buffer n \<and>
   start_when (retarget cents now n) = start_when n \<and>
   stopped (retarget cents now n) = stopped n"
  by (simp add: retarget_def split: sum.splits)

lemma setPitch_node_frame:
  assumes "r < length (nodes s)"
  shows "node_context (nodes (setPitch cents s) ! r) = node_context (nodes s ! r) \<and>
         node_buffer (nodes (setPitch cents s) ! r) = node_buffer (nodes s ! r) \<and>
         start_when (nodes (setPitch cents s) ! r) = start_when (nodes s ! r) \<and>
         stopped (nodes (setPitch cents s) ! r) = stopped (nodes s ! r)"
proof -
  have frame: "node_context (foldl (\<lambda>ns r. ns[r := g (ns ! r)]) ns refs ! r) = node_context (ns ! r) \<and>
        node_buffer (foldl (\<lambda>ns r. ns[r := g (ns ! r)]) ns refs ! r) = node_buffer (ns ! r) \<and>
        start_when (foldl (\<lambda>ns r. ns[r := g (ns ! r)]) ns refs ! r) = start_when (ns ! r) \<and>
        stopped (foldl (\<lambda>ns r. ns[r := g (ns ! r)]) ns refs ! r) = stopped (ns ! r)"
    if g: "\<And>n. node_context (g n) = node_context n \<and> node_buffer (g n) = node_buffer n \<and>
             start_when (g n) = start_when n \<and> stopped (g n) = stopped n"
      and r: "r < length ns"
    for g :: "source_node \<Rightarrow> source_node" and ns refs
    using r
  proof (induction refs arbitrary: ns)
    case Nil
    then show ?case by simp
  next
    case (Cons a refs)
    have "r < length (ns[a := g (ns ! a)])"
      using Cons.prems by simp
    from Cons.IH [OF this] show ?case
      using Cons.prems g by (cases "a = r") simp_all
  qed
  show ?thesis
  proof (cases "outputContext s")
    case None
    then show ?thesis by (simp add: setPitch_def Let_def)
  next
    case (Some ctx)
    from frame [of "retarget cents (currentTime ctx)" "nodes s" "audioSources s"]
      retarget_frame [of cents "currentTime ctx"] assms Some
    show ?thesis
      by (simp add: setPitch_def Let_def)
  qed
qed

lemma well_formed_schedule_playback:
  "well_formed s \<Longrightarrow> well_formed (schedule_playback ctx b s)"
  by (auto simp: well_formed_def schedule_playback_fields set_add_def less_Suc_eq)

lemma well_formed_handle_interruption: "well_formed (handle_interruption s)"
  by (simp add: well_formed_def handle_interruption_fields)

lemma well_formed_onended: "well_formed s \<Longrightarrow> well_formed (onended r s)"
  by (auto simp: well_formed_def onended_def set_delete_def distinct_removeAll)

lemma well_formed_setPitch: "well_formed s \<Longrightarrow> well_formed (setPitch cents s)"
  by (simp add: well_formed_def setPitch_fields)

lemma well_formed_cleanupAudio: "well_formed (cleanupAudio s)"
  by (simp add: well_formed_def cleanupAudio_def Let_def)

lemma tracked_schedule_playback:
  assumes "tracked s" "outputContext s = Some ctx"
  shows "tracked (schedule_playback ctx b s)"
proof -
  have "r \<in> set (audioSources (schedule_playback ctx b s))"
    if "r < length (nodes (schedule_playback ctx b s))"
      "audible (schedule_playback ctx b s) (nodes (schedule_playback ctx b s) ! r)" for r
  proof (cases "r < length (nodes s)")
    case True
    then have "audible s (nodes s ! r)"
      using that(2) by (simp add: audible_def schedule_playback_fields nth_append)
    then show ?thesis
      using assms(1) True by (auto simp: tracked_def schedule_playback_fields set_add_def)
  next
    case False
    then have "r = length (nodes s)"
      using that(1) by (simp add: schedule_playback_fields)
    then show ?thesis
      by (simp add: schedule_playback_fields set_add_def)
  qed
  then show ?thesis
    by (simp add: tracked_def)
qed

lemma silent_handle_interruption:
  assumes "tracked s" "r < length (nodes s)"
  shows "\<not> audible (handle_interruption s) (nodes (handle_interruption s) ! r)"
proof (cases "r \<in> set (audioSources s)")
  case True
  then show ?thesis
    using assms(2) by (simp add: audible_def handle_interruption_fields stop_def)
next
  case False
  then have "\<not> audible s (nodes s ! r)"
    using assms by (auto simp: tracked_def)
  moreover have "nodes (handle_interruption s) ! r = nodes s ! r"
    using False assms(2) by (simp add: handle_interruption_fields)
  ultimately show ?thesis
    by (simp add: audible_def handle_interruption_fields)
qed

lemma tracked_handle_interruption: "tracked s \<Longrightarrow> tracked (handle_interruption s)"
  using silent_handle_interruption [of s]
  by (simp add: tracked_def handle_interruption_fields)

lemma tracked_onended:
  "tracked s \<Longrightarrow> \<not> audible s (nodes s ! r) \<Longrightarrow> tracked (onended r s)"
  by (auto simp: tracked_def onended_def set_delete_def audible_def)

lemma tracked_setPitch: "tracked s \<Longrightarrow> tracked (setPitch cents s)"
proof -
  assume t: "tracked s"
  have "audible (setPitch cents s) (nodes (setPitch cents s) ! r) = audible s (nodes s ! r)"
    if "r < length (nodes s)" for r
    by (simp add: audible_def setPitch_fields setPitch_node_frame [OF that] split: option.splits)
  then show ?thesis
    using t by (simp add: tracked_def setPitch_fields)
qed

lemma tracked_cleanupAudio: "tracked (cleanupAudio s)"
  by (simp add: tracked_def audible_def cleanupAudio_def Let_def)

lemma tracked_clock:
  assumes "tracked s" "outputContext s = Some ctx" "currentTime ctx \<le> t"
  shows "tracked (s\<lparr>outputContext := Some (ctx\<lparr>currentTime := t\<rparr>)\<rparr>)"
proof -
  have "audible s n" if "audible (s\<lparr>outputContext := Some (ctx\<lparr>currentTime := t\<rparr>)\<rparr>) n" for n
    using that assms(2,3) by (auto simp: audible_def split: option.splits)
  then show ?thesis
    using assms(1) by (auto simp: tracked_def)
qed

lemma tracked_connect:
  assumes "\<forall>n \<in> set (nodes s). node_context n \<noteq> c"
  shows "tracked (s\<lparr>outputContext := Some \<lparr>context_id = c, currentTime = 0\<rparr>\<rparr>)"
  using assms by (auto simp: tracked_def audible_def)

lemma onmessage_cases:
  assumes "onmessage message s = Inr s'"
  shows "s' = s \<or> s' = handle_interruption s \<or>
         (\<exists>ctx b. outputContext s = Some ctx \<and>
            (s' = schedule_playback ctx b s \<or> s' = handle_interruption (schedule_playback ctx b s)))"
  using assms
  by (auto simp: onmessage_def split: option.splits sum.splits if_splits)

lemma reachable_invariant: "reachable s \<Longrightarrow> well_formed s \<and> tracked s"
proof (induction rule: reachable.induct)
  case reach_initial
  show ?case
    by (simp add: well_formed_def tracked_def initial_def)
next
  case (reach_connect s c)
  then show ?case
    using tracked_connect [of s c] by (simp add: well_formed_def)
next
  case (reach_clock s ctx t)
  then show ?case
    using tracked_clock [of s ctx t] by (simp add: well_formed_def)
next
  case (reach_message s message s')
  from onmessage_cases [OF reach_message.hyps(2)]
  consider "s' = s" | "s' = handle_interruption s"
    | ctx b where "outputContext s = Some ctx" "s' = schedule_playback ctx b s"
    | ctx b where "outputContext s = Some ctx" "s' = handle_interruption (schedule_playback ctx b s)"
    by blast
  then show ?case
  proof cases
    case 1
    then show ?thesis using reach_message.IH by simp
  next
    case 2
    then show ?thesis
      using reach_message.IH
      by (simp add: well_formed_handle_interruption tracked_handle_interruption)
  next
    case 3
    then show ?thesis
      using reach_message.IH
      by (simp add: well_formed_schedule_playback tracked_schedule_playback)
  next
    case 4
    then show ?thesis
      using reach_message.IH
      by (simp add: well_formed_handle_interruption tracked_handle_interruption
          tracked_schedule_playback)
  qed
next
  case (reach_onended s r)
  then show ?case
    by (simp add: well_formed_onended tracked_onended)
next
  case (reach_setPitch s cents)
  then show ?case
    by (simp add: well_formed_setPitch tracked_setPitch)
next
  case (reach_cleanup s)
  show ?case
    by (simp add: well_formed_cleanupAudio tracked_cleanupAudio)
qed

lemma schedule_all_append:
  "schedule_all (xs @ ys) s = schedule_all ys (schedule_all xs s)"
  by (induction xs s rule: schedule_all.induct) simp_all

lemma schedule_all_single: "schedule_all [x] s = schedule_playback (fst x) (snd x) s"
  by (cases x) simp

lemma schedule_all_nodes:
  "length (nodes (schedule_all xs s)) = length (nodes s) + length xs \<and>
   (\<forall>i < length (nodes s). nodes (schedule_all xs s) ! i = nodes s ! i)"
proof (induction xs s rule: schedule_all.induct)
  case (1 s)
  then show ?case by simp
next
  case (2 ctx b rest s)
  then show ?case
    by (simp add: schedule_playback_fields nth_append)
qed

lemma schedule_all_node:
  assumes "k < length xs"
  shows "nodes (schedule_all xs s) ! (length (nodes s) + k) =
         \<lparr>node_context = context_id (fst (xs ! k)), node_buffer = snd (xs ! k),
          detune = \<lparr>param_value = pitch s, param_events = []\<rparr>,
          start_when = Some (if nextStartTime (schedule_all (take k xs) s) < currentTime (fst (xs ! k))
                             then currentTime (fst (xs ! k)) + 0.005
                             else nextStartTime (schedule_all (take k xs) s)),
          stopped = False\<rparr>"
    and "nextStartTime (schedule_all (take (Suc k) xs) s) =
         (if nextStartTime (schedule_all (take k xs) s) < currentTime (fst (xs ! k))
          then currentTime (fst (xs ! k)) + 0.005
          else nextStartTime (schedule_all (take k xs) s)) + duration (snd (xs ! k))"
proof -
  let ?sk = "schedule_all (take k xs) s"
  let ?ctx = "fst (xs ! k)" and ?b = "snd (xs ! k)"
  let ?s1 = "schedule_playback ?ctx ?b ?sk"
  have split: "xs = take k xs @ (?ctx, ?b) # drop (Suc k) xs"
    using assms by (simp add: id_take_nth_drop)
  have t: "take (Suc k) xs = take k xs @ [(?ctx, ?b)]"
    using assms by (simp add: take_Suc_conv_app_nth)
  have s1: "schedule_all (take (Suc k) xs) s = ?s1"
    unfolding t by (simp add: schedule_all_append schedule_all_single)
  have "schedule_all xs s = schedule_all (take (Suc k) xs @ drop (Suc k) xs) s"
    by simp
  then have fin: "schedule_all xs s = schedule_all (drop (Suc k) xs) ?s1"
    unfolding schedule_all_append s1 .
  have lk: "length (nodes ?sk) = length (nodes s) + k"
    using assms schedule_all_nodes [of "take k xs" s] by simp
  have p: "pitch (schedule_all ys u) = pitch u" for ys u
    by (induction ys u rule: schedule_all.induct) (simp_all add: schedule_playback_fields)
  define n where "n = \<lparr>node_context = context_id ?ctx, node_buffer = ?b,
          detune = \<lparr>param_value = pitch s, param_events = []\<rparr>,
          start_when = Some (if nextStartTime ?sk < currentTime ?ctx
                             then currentTime ?ctx + 0.005 else nextStartTime ?sk),
          stopped = False\<rparr>"
  have ns1: "nodes ?s1 = nodes ?sk @ [n]"
    unfolding n_def by (simp add: schedule_playback_fields p)
  have "length (nodes ?sk) < length (nodes ?s1)"
    by (simp add: ns1)
  then have "nodes (schedule_all (drop (Suc k) xs) ?s1) ! length (nodes ?sk) =
      nodes ?s1 ! length (nodes ?sk)"
    using schedule_all_nodes [of "drop (Suc k) xs" ?s1] by blast
  also have "\<dots> = n"
    by (simp only: ns1 nth_append_length)
  finally have "nodes (schedule_all xs s) ! (length (nodes s) + k) = n"
    by (simp only: fin [symmetric] lk)
  then show "nodes (schedule_all xs s) ! (length (nodes s) + k) =
         \<lparr>node_context = context_id ?ctx, node_buffer = ?b,
          detune = \<lparr>param_value = pitch s, param_events = []\<rparr>,
          start_when = Some (if nextStartTime ?sk < currentTime ?ctx
                             then currentTime ?ctx + 0.005 else nextStartTime ?sk),
          stopped = False\<rparr>"
    by (simp only: n_def)
  show "nextStartTime (schedule_all (take (Suc k) xs) s) =
         (if nextStartTime ?sk < currentTime ?ctx then currentTime ?ctx + 0.005
          else nextStartTime ?sk) + duration ?b"
    unfolding s1 by (simp add: schedule_playback_fields)
qed

lemma reachable_no_context: "reachable s \<Longrightarrow> outputContext s = None \<Longrightarrow> audioSources s = []"
proof (induction rule: reachable.induct)
  case reach_initial
  show ?case by (simp add: initial_def)
next
  case (reach_connect s c)
  then show ?case by simp
next
  case (reach_clock s ctx t)
  then show ?case by simp
next
  case (reach_message s message s')
  from onmessage_cases [OF reach_message.hyps(2)] reach_message.IH reach_message.prems
  show ?case
    by (auto simp: handle_interruption_fields schedule_playback_fields)
next
  case (reach_onended s r)
  then show ?case by (simp add: onended_def set_delete_def)
next
  case (reach_setPitch s cents)
  then show ?case by (simp add: setPitch_fields)
next
  case (reach_cleanup s)
  show ?case by (simp add: cleanupAudio_def Let_def)
qed

lemma onmessage_interrupted:
  assumes "outputContext s = Some ctx" and "interrupted message"
    and "inlineData message = None \<or> inlineData message = Some [] \<or>
         (\<exists>base64Audio bytes. inlineData message = Some base64Audio \<and>
            decodeBase64 base64Audio = Inr bytes \<and> even (length bytes) \<and> 2 \<le> length bytes)"
  shows "\<exists>s1. onmessage message s = Inr (handle_interruption s1) \<and>
           (s1 = s \<or> (\<exists>b. s1 = schedule_playback ctx b s))"
proof -
  consider "inlineData message = None" | "inlineData message = Some []"
    | base64Audio bytes where "inlineData message = Some base64Audio" "base64Audio \<noteq> []"
        "decodeBase64 base64Audio = Inr bytes" "even (length bytes)" "2 \<le> length bytes"
    using assms(3) by fastforce
  then show ?thesis
  proof cases
    case 1
    then have "onmessage message s = Inr (handle_interruption s)"
      using assms(1,2) by (simp add: onmessage_def)
    then show ?thesis
      by blast
  next
    case 2
    then have "onmessage message s = Inr (handle_interruption s)"
      using assms(1,2) by (simp add: onmessage_def)
    then show ?thesis
      by blast
  next
    case 3
    have "1 \<le> length bytes div 2"
      using 3(4,5) by auto
    then obtain b where "decodeAudioData bytes SAMPLE_RATE_OUTPUT 1 = Inr b"
      using decodeAudioData_frames [of bytes 1 SAMPLE_RATE_OUTPUT] 3(4)
      by (simp add: SAMPLE_RATE_OUTPUT_def)
    then have "onmessage message s = Inr (handle_interruption (schedule_playback ctx b s))"
      using assms(1,2) 3 by (simp add: onmessage_def)
    then show ?thesis
      by blast
  qed
qed

lemma example_audio_bytes: "decodeBase64 example_audio = Inr [0, 64, 0, 192]"
proof -
  have "arrayBufferToBase64 [0, 64, 0, 192] = example_audio"
    by (simp add: arrayBufferToBase64_closed btoa_def b64_alphabet_def example_audio_def Let_def)
  then show ?thesis
    using decodeBase64_arrayBufferToBase64 [of "[0, 64, 0, 192]"] by simp
qed

lemma odd_audio_bytes: "decodeBase64 ''AAAA'' = Inr [0, 0, 0]"
proof -
  have "arrayBufferToBase64 [0, 0, 0] = ''AAAA''"
    by (simp add: arrayBufferToBase64_closed btoa_def b64_alphabet_def Let_def)
  then show ?thesis
    using decodeBase64_arrayBufferToBase64 [of "[0, 0, 0]"] by simp
qed

lemma example_buffer_decoded: "decodeAudioData [0, 64, 0, 192] SAMPLE_RATE_OUTPUT 1 = Inr example_buffer"
  using decodeAudioData_frames [of "[0, 64, 0, 192]" 1 24000]
  by (simp add: SAMPLE_RATE_OUTPUT_def example_buffer_def)

lemma onmessage_example_audio:
  assumes "outputContext s = Some ctx"
  shows "onmessage \<lparr>inlineData = Some example_audio, interrupted = False\<rparr> s =
         Inr (schedule_playback ctx example_buffer s)"
proof -
  have "example_audio \<noteq> []"
    by (simp add: example_audio_def)
  then show ?thesis
    using assms
    by (simp add: onmessage_def example_audio_bytes example_buffer_decoded del: One_nat_def)
qed

lemma example_connected_reachable: "reachable example_connected"
proof -
  have "reachable (initial\<lparr>outputContext := Some \<lparr>context_id = 0, currentTime = 0\<rparr>\<rparr>)"
    by (rule reach_connect [OF reach_initial]) (simp_all add: initial_def)
  from reach_clock [OF this, of "\<lparr>context_id = 0, currentTime = 0\<rparr>" 1]
  show ?thesis
    by (simp add: example_connected_def example_context_def)
qed

lemma example_playing_reachable: "reachable example_playing"
proof -
  have "onmessage \<lparr>inlineData = Some example_audio, interrupted = False\<rparr> example_connected =
      Inr example_playing"
    by (simp add: onmessage_example_audio [of _ "example_context 1"] example_connected_def
        example_playing_def)
  then show ?thesis
    using example_connected_reachable reach_message by blast
qed

lemma example_playing_value:
  "example_playing =
     \<lparr>outputContext = Some \<lparr>context_id = 0, currentTime = 1\<rparr>,
      nextStartTime = 1 + 5 / 1000 + 2 / 24000, audioSources = [0], pitch = 0,
      nodes = [\<lparr>node_context = 0, node_buffer = example_buffer,
                detune = \<lparr>param_value = 0, param_events = []\<rparr>,
                start_when = Some (1 + 5 / 1000), stopped = False\<rparr>]\<rparr>"
  by (simp add: example_playing_def example_connected_def example_context_def initial_def
      schedule_playback_def Let_def set_add_def duration_def example_buffer_def)

lemma example_two_reachable: "reachable example_two"
proof -
  have "outputContext example_playing = Some (example_context 1)"
    by (simp add: example_playing_value example_context_def)
  from reach_clock [OF example_playing_reachable this, of 2]
  have r: "reachable (example_playing\<lparr>outputContext := Some (example_context 2)\<rparr>)"
    by (simp add: example_context_def)
  have "onmessage \<lparr>inlineData = Some example_audio, interrupted = False\<rparr>
      (example_playing\<lparr>outputContext := Some (example_context 2)\<rparr>) = Inr example_two"
    by (simp add: onmessage_example_audio [of _ "example_context 2"] example_two_def)
  then show ?thesis
    using r reach_message by blast
qed

lemma example_two_value:
  "example_two =
     \<lparr>outputContext = Some \<lparr>context_id = 0, currentTime = 2\<rparr>,
      nextStartTime = 2 + 5 / 1000 + 2 / 24000, audioSources = [0, 1], pitch = 0,
      nodes = [\<lparr>node_context = 0, node_buffer = example_buffer,
                detune = \<lparr>param_value = 0, param_events = []\<rparr>,
                start_when = Some (1 + 5 / 1000), stopped = False\<rparr>,
               \<lparr>node_context = 0, node_buffer = example_buffer,
                detune = \<lparr>param_value = 0, param_events = []\<rparr>,
                start_when = Some (2 + 5 / 1000), stopped = False\<rparr>]\<rparr>"
  by (simp add: example_two_def example_playing_value example_context_def
      schedule_playback_def Let_def set_add_def duration_def example_buffer_def)

lemma reachable_clock: "reachable s \<Longrightarrow> outputContext s = Some ctx \<Longrightarrow> 0 \<le> currentTime ctx"
proof (induction arbitrary: ctx rule: reachable.induct)
  case reach_initial
  then show ?case by (simp add: initial_def)
next
  case (reach_connect s c)
  then show ?case by auto
next
  case (reach_clock s ctx0 t)
  then have "0 \<le> currentTime ctx0"
    by simp
  then show ?case
    using reach_clock.hyps(3) reach_clock.prems by auto
next
  case (reach_message s message s')
  from onmessage_cases [OF reach_message.hyps(2)] reach_message.prems
  have "outputContext s = Some ctx"
    by (auto simp: handle_interruption_fields schedule_playback_fields)
  then show ?case
    by (rule reach_message.IH)
next
  case (reach_onended s r)
  then show ?case by (simp add: onended_def)
next
  case (reach_setPitch s cents)
  then show ?case by (simp add: setPitch_fields)
next
  case (reach_cleanup s)
  then show ?case by (simp add: cleanupAudio_def Let_def)
qed

lemma stopped_inactive_schedule_playback:
  assumes "\<forall>r < length (nodes s). stopped (nodes s ! r) \<longrightarrow> r \<notin> set (audioSources s)"
    and "r < length (nodes (schedule_playback ctx b s))"
    and "stopped (nodes (schedule_playback ctx b s) ! r)"
  shows "r \<notin> set (audioSources (schedule_playback ctx b s))"
proof (cases "r < length (nodes s)")
  case True
  then have "stopped (nodes s ! r)"
    using assms(3) by (simp add: schedule_playback_fields nth_append)
  then show ?thesis
    using assms(1) True by (auto simp: schedule_playback_fields set_add_def)
next
  case False
  then have "r = length (nodes s)"
    using assms(2) by (simp add: schedule_playback_fields)
  then show ?thesis
    using assms(3) by (simp add: schedule_playback_fields)
qed

lemma reachable_stopped_inactive:
  "reachable s \<Longrightarrow> r < length (nodes s) \<Longrightarrow> stopped (nodes s ! r) \<Longrightarrow> r \<notin> set (audioSources s)"
proof (induction arbitrary: r rule: reachable.induct)
  case reach_initial
  then show ?case by (simp add: initial_def)
next
  case (reach_connect s c)
  then show ?case by simp
next
  case (reach_clock s ctx t)
  then show ?case by simp
next
  case (reach_message s message s')
  have inv: "\<forall>r < length (nodes s). stopped (nodes s ! r) \<longrightarrow> r \<notin> set (audioSources s)"
    using reach_message.IH by blast
  from onmessage_cases [OF reach_message.hyps(2)]
  consider "s' = s" | "s' = handle_interruption s"
    | ctx b where "s' = schedule_playback ctx b s"
    | ctx b where "s' = handle_interruption (schedule_playback ctx b s)"
    by blast
  then show ?case
  proof cases
    case 1
    then show ?thesis using reach_message.IH reach_message.prems by simp
  next
    case 2
    then show ?thesis by (simp add: handle_interruption_fields)
  next
    case 3
    then show ?thesis
      using stopped_inactive_schedule_playback [OF inv] reach_message.prems by simp
  next
    case 4
    then show ?thesis by (simp add: handle_interruption_fields)
  qed
next
  case (reach_onended s r')
  then show ?case by (simp add: onended_def set_delete_def)
next
  case (reach_setPitch s cents)
  then show ?case
    using setPitch_node_frame [of r s cents] by (simp add: setPitch_fields)
next
  case (reach_cleanup s)
  then show ?case by (simp add: cleanupAudio_def Let_def)
qed

lemma retarget_appends:
  "0 \<le> now \<Longrightarrow>
   retarget cents now n = n\<lparr>detune := (detune n)\<lparr>param_events := param_events (detune n) @ [(cents, now, 0.1)]\<rparr>\<rparr>"
  by (simp add: retarget_def setTargetAtTime_def)

lemma detune_stop: "detune (stop n) = detune n"
  by (simp add: stop_def)

lemma handle_interruption_detune:
  "r < length (nodes s) \<Longrightarrow> detune (nodes (handle_interruption s) ! r) = detune (nodes s ! r)"
  by (simp add: handle_interruption_fields detune_stop)

lemma cleanupAudio_detune:
  "length (nodes (cleanupAudio s)) = length (nodes s) \<and> pitch (cleanupAudio s) = pitch s \<and>
   (r < length (nodes s) \<longrightarrow> detune (nodes (cleanupAudio s) ! r) = detune (nodes s ! r))"
  by (simp add: cleanupAudio_def Let_def foldl_update_length foldl_stop_nth detune_stop)

lemma created_with_schedule_playback:
  "created_with s u \<Longrightarrow> created_with s (schedule_playback ctx b u)"
  by (auto simp: created_with_def schedule_playback_fields nth_append)

lemma created_with_handle_interruption:
  "created_with s u \<Longrightarrow> created_with s (handle_interruption u)"
  by (simp add: created_with_def handle_interruption_fields detune_stop)

lemma later_created_with: "later s u \<Longrightarrow> created_with s u"
proof (induction rule: later.induct)
  case later_refl
  show ?case by (simp add: created_with_def)
next
  case (later_connect u c)
  then show ?case by (simp add: created_with_def)
next
  case (later_clock u ctx t)
  then show ?case by (simp add: created_with_def)
next
  case (later_message u message u')
  from onmessage_cases [OF later_message.hyps(2)]
  consider "u' = u" | "u' = handle_interruption u"
    | ctx b where "u' = schedule_playback ctx b u"
    | ctx b where "u' = handle_interruption (schedule_playback ctx b u)"
    by blast
  then show ?case
    using later_message.IH
    by cases (simp_all add: created_with_schedule_playback created_with_handle_interruption)
next
  case (later_onended u r)
  then show ?case by (simp add: created_with_def onended_def)
next
  case (later_cleanup u)
  then show ?case
    using cleanupAudio_detune [of u] by (simp add: created_with_def)
qed

text \<open>
  The interruption block when it is reached: the output context exists and the message
  carries no audio payload or one that decodes (base64 text of an even, non-zero number of
  bytes). Every source that was in the active set is stopped, as is a source scheduled from
  the payload of the same message, the active set is empty and the timeline cursor equals
  the current time of the output clock; in a reachable state no audible source is left.
\<close>

lemma interruption_block_effect:
  assumes "outputContext s = Some ctx" and "interrupted message"
    and "inlineData message = None \<or> inlineData message = Some [] \<or>
         (\<exists>base64Audio bytes. inlineData message = Some base64Audio \<and>
            decodeBase64 base64Audio = Inr bytes \<and> even (length bytes) \<and> 2 \<le> length bytes)"
  shows "\<exists>s'. onmessage message s = Inr s' \<and>
           audioSources s' = [] \<and>
           nextStartTime s' = currentTime ctx \<and>
           outputContext s' = Some ctx \<and>
           (\<forall>r \<in> set (audioSources s). r < length (nodes s) \<longrightarrow> stopped (nodes s' ! r)) \<and>
           (\<forall>r < length (nodes s'). length (nodes s) \<le> r \<longrightarrow> stopped (nodes s' ! r)) \<and>
           (reachable s \<longrightarrow> (\<forall>r < length (nodes s'). \<not> audible s' (nodes s' ! r)))"
proof -
  obtain s1 where on: "onmessage message s = Inr (handle_interruption s1)"
    and s1: "s1 = s \<or> (\<exists>b. s1 = schedule_playback ctx b s)"
    using onmessage_interrupted [OF assms] by blast
  let ?s' = "handle_interruption s1"
  have ctx: "outputContext s1 = Some ctx"
    using s1 assms(1) by (auto simp: schedule_playback_fields)
  have sub: "set (audioSources s) \<subseteq> set (audioSources s1)"
    using s1 by (auto simp: schedule_playback_fields set_add_def)
  have old: "nodes s1 ! r = nodes s ! r" "r < length (nodes s1)" if "r < length (nodes s)" for r
    using s1 that by (auto simp: schedule_playback_fields nth_append)
  have new: "r \<in> set (audioSources s1)" if "r < length (nodes s1)" "length (nodes s) \<le> r" for r
  proof -
    from s1 that obtain b where b: "s1 = schedule_playback ctx b s"
      by auto
    then have "r = length (nodes s)"
      using that by (simp add: schedule_playback_fields)
    then show ?thesis
      using b by (simp add: schedule_playback_fields set_add_def)
  qed
  have 1: "audioSources ?s' = []" "nextStartTime ?s' = currentTime ctx" "outputContext ?s' = Some ctx"
    using ctx by (simp_all add: handle_interruption_fields)
  have 2: "\<forall>r \<in> set (audioSources s). r < length (nodes s) \<longrightarrow> stopped (nodes ?s' ! r)"
    using sub old by (auto simp: handle_interruption_fields stop_def)
  have 3: "\<forall>r < length (nodes ?s'). length (nodes s) \<le> r \<longrightarrow> stopped (nodes ?s' ! r)"
    using new by (auto simp: handle_interruption_fields stop_def)
  have 4: "\<forall>r < length (nodes ?s'). \<not> audible ?s' (nodes ?s' ! r)" if "reachable s"
  proof -
    have "tracked s"
      using reachable_invariant [OF that] by simp
    then have "tracked s1"
      using s1 assms(1) tracked_schedule_playback by blast
    then show ?thesis
      using silent_handle_interruption [of s1] by (simp add: handle_interruption_fields)
  qed
  show ?thesis
    using on 1 2 3 4 by blast
qed

lemma example_interrupted_reachable: "reachable (handle_interruption example_playing)"
proof -
  have "outputContext example_playing = Some (example_context 1)"
    by (simp add: example_playing_value example_context_def)
  then have "onmessage \<lparr>inlineData = None, interrupted = True\<rparr> example_playing =
     Inr (handle_interruption example_playing)"
    by (simp add: onmessage_def)
  then show ?thesis
    using example_playing_reachable reach_message by blast
qed

section \<open>Claims about the playback scheduler\<close>

text \<open>
  C1. A server message flagged as interrupted does not always stop the playing sources.
  The handler decodes the audio payload of the message before it looks at the flag, and the
  decoding is not guarded: the payload \<^verbatim>\<open>AAAA\<close> is valid base64 for three bytes, the
  16-bit view over three bytes raises \<^verbatim>\<open>RangeError\<close>, and the handler ends there. On the
  state \<open>example_playing\<close>, in which one source is playing, the message with this payload
  and the flag set leaves the source in the active set, not stopped and audible, whereas the
  message with the flag set and no payload stops it and empties the active set.
\<close>

theorem interruption_lost:
  "decodeBase64 ''AAAA'' = Inr [0, 0, 0] \<and>
   onmessage \<lparr>inlineData = Some ''AAAA'', interrupted = True\<rparr> example_playing = Inl RangeError \<and>
   audioSources example_playing = [0] \<and>
   \<not> stopped (nodes example_playing ! 0) \<and>
   audible example_playing (nodes example_playing ! 0) \<and>
   onmessage \<lparr>inlineData = None, interrupted = True\<rparr> example_playing =
     Inr (handle_interruption example_playing) \<and>
   audioSources (handle_interruption example_playing) = [] \<and>
   stopped (nodes (handle_interruption example_playing) ! 0)"
proof -
  have c: "outputContext example_playing = Some (example_context 1)"
    by (simp add: example_playing_value example_context_def)
  then have "onmessage \<lparr>inlineData = Some ''AAAA'', interrupted = True\<rparr> example_playing = Inl RangeError"
    by (simp add: onmessage_def odd_audio_bytes decodeAudioData_def new_Int16Array_def)
  moreover have "audioSources example_playing = [0]" "\<not> stopped (nodes example_playing ! 0)"
    "audible example_playing (nodes example_playing ! 0)" "length (nodes example_playing) = 1"
    by (simp_all add: example_playing_value audible_def duration_def example_buffer_def)
  moreover have "onmessage \<lparr>inlineData = None, interrupted = True\<rparr> example_playing =
     Inr (handle_interruption example_playing)"
    using c by (simp add: onmessage_def)
  ultimately show ?thesis
    using odd_audio_bytes by (simp add: handle_interruption_fields stop_def)
qed

text \<open>
  C2. For every buffer handed to the scheduler, the start time of its source is not less
  than the reading of the output clock at that moment: it is the cursor, or the clock plus
  0.005 when the cursor has fallen behind the clock; and the cursor then advances by
  exactly the duration of the buffer. Hence, for buffers scheduled one after the other,
  when there is no underrun at buffer \<open>k\<close> its start time is the start time of buffer
  \<open>k - 1\<close> plus the duration of buffer \<open>k - 1\<close>.
\<close>

theorem gapless_schedule:
  assumes "k < length arrivals"
  shows "\<exists>w. start_when (nodes (schedule_all arrivals s) ! (length (nodes s) + k)) = Some w \<and>
           currentTime (fst (arrivals ! k)) \<le> w \<and>
           w = (if nextStartTime (schedule_all (take k arrivals) s) < currentTime (fst (arrivals ! k))
                then currentTime (fst (arrivals ! k)) + 0.005
                else nextStartTime (schedule_all (take k arrivals) s)) \<and>
           nextStartTime (schedule_all (take (Suc k) arrivals) s) = w + duration (snd (arrivals ! k)) \<and>
           (0 < k \<and> \<not> nextStartTime (schedule_all (take k arrivals) s) < currentTime (fst (arrivals ! k)) \<longrightarrow>
              (\<exists>w'. start_when (nodes (schedule_all arrivals s) ! (length (nodes s) + (k - 1))) = Some w' \<and>
                 w = w' + duration (snd (arrivals ! (k - 1)))))"
proof -
  let ?cursor = "nextStartTime (schedule_all (take k arrivals) s)"
  let ?now = "currentTime (fst (arrivals ! k))"
  let ?w = "if ?cursor < ?now then ?now + 0.005 else ?cursor"
  have 1: "start_when (nodes (schedule_all arrivals s) ! (length (nodes s) + k)) = Some ?w"
    by (simp add: schedule_all_node(1) [OF assms])
  have 2: "?now \<le> ?w"
    by simp
  have 3: "nextStartTime (schedule_all (take (Suc k) arrivals) s) = ?w + duration (snd (arrivals ! k))"
    by (rule schedule_all_node(2) [OF assms])
  have 4: "\<exists>w'. start_when (nodes (schedule_all arrivals s) ! (length (nodes s) + (k - 1))) = Some w' \<and>
      ?w = w' + duration (snd (arrivals ! (k - 1)))" if "0 < k" "\<not> ?cursor < ?now"
  proof -
    define j where "j = k - 1"
    have j: "k = Suc j"
      using that(1) by (simp add: j_def)
    then have jl: "j < length arrivals"
      using assms by simp
    define w' where "w' = (if nextStartTime (schedule_all (take j arrivals) s) < currentTime (fst (arrivals ! j))
               then currentTime (fst (arrivals ! j)) + 0.005
               else nextStartTime (schedule_all (take j arrivals) s))"
    have a: "start_when (nodes (schedule_all arrivals s) ! (length (nodes s) + j)) = Some w'"
      unfolding w'_def by (simp only: schedule_all_node(1) [OF jl] source_node.simps)
    have "nextStartTime (schedule_all (take (Suc j) arrivals) s) = w' + duration (snd (arrivals ! j))"
      unfolding w'_def by (rule schedule_all_node(2) [OF jl])
    then have b: "?cursor = w' + duration (snd (arrivals ! j))"
      by (simp only: j)
    have c: "?w = ?cursor"
      using that(2) by (simp only: if_False)
    have d: "k - 1 = j"
      using j by simp
    show ?thesis
      unfolding d using a b c by (intro exI [of _ w']) (simp only: simp_thms)
  qed
  show ?thesis
    using 1 2 3 4 by blast
qed

theorem gapless_schedule_witness:
  "(1::nat) < length [(example_context 1, example_buffer), (example_context (1001 / 1000), example_buffer),
                      (example_context 5, example_buffer)] \<and>
   (0::nat) < 1 \<and>
   \<not> nextStartTime (schedule_all (take 1 [(example_context 1, example_buffer),
          (example_context (1001 / 1000), example_buffer), (example_context 5, example_buffer)])
        example_connected) < currentTime (example_context (1001 / 1000)) \<and>
   (\<exists>w w'. start_when (nodes (schedule_all [(example_context 1, example_buffer),
          (example_context (1001 / 1000), example_buffer), (example_context 5, example_buffer)]
        example_connected) ! 1) = Some w \<and>
      start_when (nodes (schedule_all [(example_context 1, example_buffer),
          (example_context (1001 / 1000), example_buffer), (example_context 5, example_buffer)]
        example_connected) ! 0) = Some w' \<and>
      w' = 1 + 5 / 1000 \<and> w = w' + duration example_buffer \<and> 1001 / 1000 \<le> w)"
proof -
  let ?arr = "[(example_context 1, example_buffer), (example_context (1001 / 1000), example_buffer),
               (example_context 5, example_buffer)]"
  have k: "(1::nat) < length ?arr"
    by simp
  have n0: "length (nodes example_connected) = 0"
    by (simp add: example_connected_def initial_def)
  have cur: "nextStartTime (schedule_all (take 1 ?arr) example_connected) = 1 + 5 / 1000 + 2 / 24000"
    using example_playing_value by (simp add: example_playing_def)
  have under: "\<not> nextStartTime (schedule_all (take 1 ?arr) example_connected)
      < currentTime (example_context (1001 / 1000))"
    unfolding cur by (simp add: example_context_def)
  have first: "start_when (nodes (schedule_all ?arr example_connected) ! 0) = Some (1 + 5 / 1000)"
    using schedule_all_node(1) [of 0 ?arr example_connected]
    by (simp add: n0 example_context_def example_connected_def initial_def)
  from gapless_schedule [OF k, of example_connected] under first
  show ?thesis
    by (auto simp: n0 example_context_def)
qed

text \<open>
  C9. \<open>setPitch cents\<close> stores \<open>cents\<close> as the pitch, and leaves the active set, the cursor,
  the output context and, of every node, its context, buffer, start time and stopped flag
  as they were; a node outside the active set is not touched at all. In a reachable state
  the call \<^verbatim>\<open>setTargetAtTime(cents, now, 0.1)\<close> succeeds on every source of the active set,
  so each of them receives the event at the current time of the output clock and none is
  skipped; a stopped source is never in the active set and is left as it is. Every source
  created after the call, as long as no other call of \<open>setPitch\<close> intervenes, is created
  with \<open>cents\<close> as the value of its detune parameter.
\<close>

theorem setPitch_effect:
  "pitch (setPitch cents s) = cents \<and>
   audioSources (setPitch cents s) = audioSources s \<and>
   nextStartTime (setPitch cents s) = nextStartTime s \<and>
   outputContext (setPitch cents s) = outputContext s \<and>
   length (nodes (setPitch cents s)) = length (nodes s) \<and>
   (\<forall>r < length (nodes s).
      node_context (nodes (setPitch cents s) ! r) = node_context (nodes s ! r) \<and>
      node_buffer (nodes (setPitch cents s) ! r) = node_buffer (nodes s ! r) \<and>
      start_when (nodes (setPitch cents s) ! r) = start_when (nodes s ! r) \<and>
      stopped (nodes (setPitch cents s) ! r) = stopped (nodes s ! r) \<and>
      (r \<notin> set (audioSources s) \<longrightarrow> nodes (setPitch cents s) ! r = nodes s ! r)) \<and>
   (reachable s \<longrightarrow>
      (\<forall>r \<in> set (audioSources s). \<exists>ctx. outputContext s = Some ctx \<and>
         detune (nodes (setPitch cents s) ! r) =
           (detune (nodes s ! r))\<lparr>param_events :=
              param_events (detune (nodes s ! r)) @ [(cents, currentTime ctx, 0.1)]\<rparr>) \<and>
      (\<forall>r < length (nodes s). stopped (nodes s ! r) \<longrightarrow>
         r \<notin> set (audioSources s) \<and> nodes (setPitch cents s) ! r = nodes s ! r)) \<and>
   (\<forall>u. later (setPitch cents s) u \<longrightarrow>
      pitch u = cents \<and>
      (\<forall>r < length (nodes u). length (nodes s) \<le> r \<longrightarrow>
         param_value (detune (nodes u ! r)) = cents))"
proof -
  have a: "\<exists>ctx. outputContext s = Some ctx \<and>
         detune (nodes (setPitch cents s) ! r) =
           (detune (nodes s ! r))\<lparr>param_events :=
              param_events (detune (nodes s ! r)) @ [(cents, currentTime ctx, 0.1)]\<rparr>"
    if re: "reachable s" and mem: "r \<in> set (audioSources s)" for r
  proof -
    have wf: "distinct (audioSources s)" "r < length (nodes s)"
      using reachable_invariant [OF re] mem by (auto simp: well_formed_def)
    obtain ctx where ctx: "outputContext s = Some ctx"
      using reachable_no_context [OF re] mem by (cases "outputContext s") auto
    have "0 \<le> currentTime ctx"
      by (rule reachable_clock [OF re ctx])
    then show ?thesis
      using setPitch_active [OF wf(1) mem wf(2) ctx, of cents] ctx
      by (simp add: retarget_appends)
  qed
  have b: "r \<notin> set (audioSources s) \<and> nodes (setPitch cents s) ! r = nodes s ! r"
    if re: "reachable s" and r: "r < length (nodes s)" "stopped (nodes s ! r)" for r
    using reachable_stopped_inactive [OF re r] by (simp add: setPitch_inactive)
  have c: "pitch u = cents \<and>
      (\<forall>r < length (nodes u). length (nodes s) \<le> r \<longrightarrow> param_value (detune (nodes u ! r)) = cents)"
    if "later (setPitch cents s) u" for u
    using later_created_with [OF that] by (simp add: created_with_def setPitch_fields)
  show ?thesis
    using a b c setPitch_fields [of cents s] setPitch_node_frame [of _ s cents]
      setPitch_inactive [of _ s cents]
    by blast
qed

theorem setPitch_effect_witness:
  "reachable example_two \<and> audioSources example_two = [0, 1] \<and>
   pitch (setPitch 200 example_two) = 200 \<and>
   audioSources (setPitch 200 example_two) = [0, 1] \<and>
   nextStartTime (setPitch 200 example_two) = nextStartTime example_two \<and>
   detune (nodes (setPitch 200 example_two) ! 1) = \<lparr>param_value = 0, param_events = [(200, 2, 0.1)]\<rparr> \<and>
   later (setPitch 200 example_two)
     (schedule_playback (example_context 2) example_buffer (setPitch 200 example_two)) \<and>
   param_value (detune (nodes (schedule_playback (example_context 2) example_buffer
                                 (setPitch 200 example_two)) ! 2)) = 200 \<and>
   reachable (handle_interruption example_playing) \<and>
   stopped (nodes (handle_interruption example_playing) ! 0) \<and>
   nodes (setPitch 200 (handle_interruption example_playing)) ! 0 =
     nodes (handle_interruption example_playing) ! 0"
proof -
  let ?s = "setPitch 200 example_two"
  let ?u = "schedule_playback (example_context 2) example_buffer ?s"
  have r: "reachable example_two"
    by (rule example_two_reachable)
  have v: "audioSources example_two = [0, 1]" "outputContext example_two = Some (example_context 2)"
    "length (nodes example_two) = 2"
    "detune (nodes example_two ! 1) = \<lparr>param_value = 0, param_events = []\<rparr>"
    by (simp_all add: example_two_value example_context_def)
  note e = setPitch_effect [of 200 example_two]
  have d1: "detune (nodes ?s ! 1) = \<lparr>param_value = 0, param_events = [(200, 2, 0.1)]\<rparr>"
    using e r v by (auto simp: example_context_def)
  have c: "outputContext ?s = Some (example_context 2)"
    using e v by simp
  have "onmessage \<lparr>inlineData = Some example_audio, interrupted = False\<rparr> ?s = Inr ?u"
    by (rule onmessage_example_audio [OF c])
  then have l: "later ?s ?u"
    using later_message [OF later_refl] by blast
  have "length (nodes ?u) = 3"
    using e v by (simp add: schedule_playback_fields)
  then have n: "param_value (detune (nodes ?u ! 2)) = 200"
    using e l v by auto
  let ?i = "handle_interruption example_playing"
  have ri: "reachable ?i"
    by (rule example_interrupted_reachable)
  have si: "stopped (nodes ?i ! 0)" "length (nodes ?i) = 1"
    by (simp_all add: example_playing_value handle_interruption_fields stop_def)
  have "nodes (setPitch 200 ?i) ! 0 = nodes ?i ! 0"
    using setPitch_effect [of 200 ?i] ri si by auto
  then show ?thesis
    using e r v d1 l n ri si by simp
qed

text \<open>
  A source that has finished playing stays in the active set until its \<^verbatim>\<open>onended\<close> handler
  has run. In \<open>example_two\<close> the first source started at 1.005 and lasted two frames, the
  clock reads 2 and the source is still in the set: \<open>setPitch 200\<close> retargets it like the
  one that is playing, the call does not raise and the source is not skipped.
\<close>

theorem setPitch_finished_counterexample:
  "reachable example_two \<and> audioSources example_two = [0, 1] \<and>
   outputContext example_two = Some (example_context 2) \<and>
   start_when (nodes example_two ! 0) = Some (1 + 5 / 1000) \<and>
   1 + 5 / 1000 + duration (node_buffer (nodes example_two ! 0)) < currentTime (example_context 2) \<and>
   \<not> audible example_two (nodes example_two ! 0) \<and>
   detune (nodes example_two ! 0) = \<lparr>param_value = 0, param_events = []\<rparr> \<and>
   detune (nodes (setPitch 200 example_two) ! 0) = \<lparr>param_value = 0, param_events = [(200, 2, 0.1)]\<rparr>"
proof -
  have "detune (nodes (setPitch 200 example_two) ! 0) = \<lparr>param_value = 0, param_events = [(200, 2, 0.1)]\<rparr>"
    by (simp add: example_two_value setPitch_def Let_def retarget_def setTargetAtTime_def)
  then show ?thesis
    using example_two_reachable
    by (simp add: example_two_value example_context_def audible_def duration_def example_buffer_def)
qed

end
